theory Spec2Isabelle
  imports Complex_Main "HOL-Library.Multiset"
begin

section \<open>Python strings\<close>

text \<open>
  A Python \<open>str\<close> is modelled as a \<^typ>\<open>string\<close>: one \<^typ>\<open>char\<close> per code point,
  for the code points below 256. The character classes below are those of CPython
  on that range.
\<close>

definition lower_char :: "char \<Rightarrow> char" where
  \<comment> \<open>\<open>str.lower\<close> on one code point: it moves A-Z (65-90) and the Latin-1 capitals
      (192-222 without 215) up by 32, which sets bit 5, and leaves the rest as it is\<close>
  "lower_char c =
     (let n = (of_char c :: nat)
      in if (65 \<le> n \<and> n \<le> 90) \<or> (192 \<le> n \<and> n \<le> 222 \<and> n \<noteq> 215)
         then (case c of Char b0 b1 b2 b3 b4 b5 b6 b7 \<Rightarrow> Char b0 b1 b2 b3 b4 True b6 b7)
         else c)"

definition lower :: "string \<Rightarrow> string" where
  "lower s = map lower_char s"

definition lstrip :: "string \<Rightarrow> string \<Rightarrow> string" where
  \<comment> \<open>\<open>s.lstrip(chars)\<close>\<close>
  "lstrip chars s = dropWhile (\<lambda>c. c \<in> set chars) s"

definition rstrip :: "string \<Rightarrow> string \<Rightarrow> string" where
  \<comment> \<open>\<open>s.rstrip(chars)\<close>\<close>
  "rstrip chars s = rev (dropWhile (\<lambda>c. c \<in> set chars) (rev s))"

definition strip :: "string \<Rightarrow> string \<Rightarrow> string" where
  \<comment> \<open>\<open>s.strip(chars)\<close>\<close>
  "strip chars s = rstrip chars (lstrip chars s)"

definition remove_char :: "char \<Rightarrow> string \<Rightarrow> string" where
  \<comment> \<open>\<open>s.replace(b, "")\<close> for a one-character \<open>b\<close>\<close>
  "remove_char b s = filter (\<lambda>c. c \<noteq> b) s"

definition before_char :: "char \<Rightarrow> string \<Rightarrow> string" where
  \<comment> \<open>\<open>s[:s.find(d)]\<close> when \<open>d\<close> occurs in \<open>s\<close>, all of \<open>s\<close> otherwise\<close>
  "before_char d s = takeWhile (\<lambda>c. c \<noteq> d) s"

definition after_char :: "char \<Rightarrow> string \<Rightarrow> string" where
  \<comment> \<open>\<open>s[s.find(d)+1:]\<close> when \<open>d\<close> occurs in \<open>s\<close>, empty otherwise\<close>
  "after_char d s = drop 1 (dropWhile (\<lambda>c. c \<noteq> d) s)"

fun split_on :: "char \<Rightarrow> string \<Rightarrow> string list" where
  \<comment> \<open>\<open>s.split(d)\<close> for a one-character separator: never empty, \<open>"".split(d) = [""]\<close>\<close>
  "split_on d [] = [[]]"
| "split_on d (c # cs) =
     (case split_on d cs of
        [] \<Rightarrow> [[c]]
      | w # ws \<Rightarrow> if c = d then [] # w # ws else (c # w) # ws)"

fun join :: "string \<Rightarrow> string list \<Rightarrow> string" where
  \<comment> \<open>\<open>sep.join(parts)\<close>\<close>
  "join sep [] = []"
| "join sep [p] = p"
| "join sep (p # q # ps) = p @ sep @ join sep (q # ps)"

section \<open>urllib.parse\<close>

text \<open>
  \<open>urlparse\<close> and \<open>urljoin\<close> are the standard library's (CPython 3.11,
  \<open>urllib/parse.py\<close>), followed line by line. \<open>urlsplit\<close> raises \<open>ValueError\<close> on a
  network location with unbalanced brackets, and on a bracketed host that
  \<open>_check_bracketed_host\<close> (module \<open>ipaddress\<close>) rejects; that last check is the
  parameter \<open>chk\<close> (\<open>True\<close>: accepted). \<open>_checknetloc\<close> normalises a non-ASCII network
  location (NFKC) and raises when that produces one of \<open>/?#@:\<close>; no code point below 256
  does, so it never raises here.
\<close>

datatype exn = ValueError | OtherError

record parse_result =
  scheme :: string
  netloc :: string
  path :: string
  params :: string
  query_string :: string
  fragment :: string

definition uses_relative :: "string list" where
  "uses_relative = ['''', ''ftp'', ''http'', ''gopher'', ''nntp'', ''imap'',
                    ''wais'', ''file'', ''https'', ''shttp'', ''mms'',
                    ''prospero'', ''rtsp'', ''rtsps'', ''rtspu'', ''sftp'',
                    ''svn'', ''svn+ssh'', ''ws'', ''wss'']"

definition uses_netloc :: "string list" where
  "uses_netloc = ['''', ''ftp'', ''http'', ''gopher'', ''nntp'', ''telnet'',
                  ''imap'', ''wais'', ''file'', ''mms'', ''https'', ''shttp'',
                  ''snews'', ''prospero'', ''rtsp'', ''rtsps'', ''rtspu'', ''rsync'',
                  ''svn'', ''svn+ssh'', ''sftp'', ''nfs'', ''git'', ''git+ssh'',
                  ''ws'', ''wss'']"

definition uses_params :: "string list" where
  "uses_params = ['''', ''ftp'', ''hdl'', ''prospero'', ''http'', ''imap'',
                  ''https'', ''shttp'', ''rtsp'', ''rtsps'', ''rtspu'', ''sip'',
                  ''sips'', ''mms'', ''sftp'', ''tel'']"

definition scheme_chars :: "string" where
  "scheme_chars =
     ''abcdefghijklmnopqrstuvwxyzABCDEFGHIJKLMNOPQRSTUVWXYZ0123456789+-.''"

definition is_c0_control_or_space :: "char \<Rightarrow> bool" where
  \<comment> \<open>membership in \<open>_WHATWG_C0_CONTROL_OR_SPACE\<close>, the code points 0 to 32\<close>
  "is_c0_control_or_space c \<longleftrightarrow> (of_char c :: nat) \<le> 32"

definition is_ascii_alpha :: "char \<Rightarrow> bool" where
  \<comment> \<open>\<open>c.isascii() and c.isalpha()\<close>\<close>
  "is_ascii_alpha c \<longleftrightarrow>
     c \<in> set ''abcdefghijklmnopqrstuvwxyzABCDEFGHIJKLMNOPQRSTUVWXYZ''"

definition is_netloc_delim :: "char \<Rightarrow> bool" where
  "is_netloc_delim c \<longleftrightarrow> c = CHR ''/'' \<or> c = CHR ''?'' \<or> c = CHR ''#''"

definition splitnetloc :: "string \<Rightarrow> string \<times> string" where
  \<comment> \<open>\<open>_splitnetloc(url, 2)\<close>: the text after the two slashes, cut at the first of \<open>/?#\<close>\<close>
  "splitnetloc url =
     (takeWhile (\<lambda>c. \<not> is_netloc_delim c) (drop 2 url),
      dropWhile (\<lambda>c. \<not> is_netloc_delim c) (drop 2 url))"

definition split_scheme :: "string \<Rightarrow> string \<Rightarrow> string \<times> string" where
  \<comment> \<open>the scheme before the first colon, when there is one, it is not at position 0, the
      URL starts with an ASCII letter and the text before the colon is made of scheme
      characters; the default scheme and the whole URL otherwise\<close>
  "split_scheme dflt url =
     (if CHR '':'' \<in> set url \<and> before_char CHR '':'' url \<noteq> [] \<and> is_ascii_alpha (hd url)
         \<and> list_all (\<lambda>c. c \<in> set scheme_chars) (before_char CHR '':'' url)
      then (lower (before_char CHR '':'' url), after_char CHR '':'' url)
      else (dflt, url))"

definition clean_url :: "string \<Rightarrow> string" where
  \<comment> \<open>\<open>url.lstrip(_WHATWG_C0_CONTROL_OR_SPACE)\<close>, then tab, CR and LF removed\<close>
  "clean_url url =
     remove_char CHR 0x0A (remove_char CHR 0x0D (remove_char CHR 0x09
       (dropWhile is_c0_control_or_space url)))"

definition clean_scheme :: "string \<Rightarrow> string" where
  \<comment> \<open>\<open>scheme.strip(_WHATWG_C0_CONTROL_OR_SPACE)\<close>, then tab, CR and LF removed\<close>
  "clean_scheme s =
     remove_char CHR 0x0A (remove_char CHR 0x0D (remove_char CHR 0x09
       (rev (dropWhile is_c0_control_or_space
          (rev (dropWhile is_c0_control_or_space s))))))"

definition split_tail :: "string \<Rightarrow> string \<Rightarrow> string \<Rightarrow> parse_result" where
  \<comment> \<open>the end of \<open>urlsplit\<close>: the fragment is cut at the first \<open>#\<close>, then the query at the
      first \<open>?\<close> of what is left\<close>
  "split_tail sch nl url =
     \<lparr>scheme = sch, netloc = nl,
      path = before_char CHR ''?'' (before_char CHR ''#'' url),
      params = '''',
      query_string = after_char CHR ''?'' (before_char CHR ''#'' url),
      fragment = after_char CHR ''#'' url\<rparr>"

definition check_netloc :: "(string \<Rightarrow> bool) \<Rightarrow> string \<Rightarrow> string \<times> string \<Rightarrow> exn + parse_result" where
  \<comment> \<open>the bracket checks on the network location that \<open>_splitnetloc\<close> returned\<close>
  "check_netloc chk sch p =
     (case p of (nl, url) \<Rightarrow>
        if (CHR ''['' \<in> set nl \<and> CHR '']'' \<notin> set nl)
           \<or> (CHR '']'' \<in> set nl \<and> CHR ''['' \<notin> set nl)
        then Inl ValueError
        else if CHR ''['' \<in> set nl \<and> CHR '']'' \<in> set nl
                \<and> \<not> chk (before_char CHR '']'' (after_char CHR ''['' nl))
        then Inl ValueError
        else Inr (split_tail sch nl url))"

definition split_after_scheme :: "(string \<Rightarrow> bool) \<Rightarrow> string \<times> string \<Rightarrow> exn + parse_result" where
  "split_after_scheme chk p =
     (case p of (sch, url) \<Rightarrow>
        if take 2 url = ''//'' then check_netloc chk sch (splitnetloc url)
        else Inr (split_tail sch '''' url))"

definition urlsplit :: "(string \<Rightarrow> bool) \<Rightarrow> string \<Rightarrow> string \<Rightarrow> exn + parse_result" where
  \<comment> \<open>\<open>urlsplit(url, scheme)\<close>\<close>
  "urlsplit chk url scheme0 =
     split_after_scheme chk (split_scheme (clean_scheme scheme0) (clean_url url))"

definition last_segment :: "string \<Rightarrow> string" where
  \<comment> \<open>\<open>url[url.rfind('/')+1:]\<close>\<close>
  "last_segment url = rev (takeWhile (\<lambda>c. c \<noteq> CHR ''/'') (rev url))"

definition splitparams :: "string \<Rightarrow> string \<times> string" where
  \<comment> \<open>\<open>_splitparams\<close>: cut at the first semicolon of the last path segment\<close>
  "splitparams url =
     (if CHR ''/'' \<in> set url
      then (if CHR '';'' \<in> set (last_segment url)
            then (take (length url - length (last_segment url)) url
                    @ before_char CHR '';'' (last_segment url),
                  after_char CHR '';'' (last_segment url))
            else (url, ''''))
      else (before_char CHR '';'' url, after_char CHR '';'' url))"

definition with_params :: "parse_result \<Rightarrow> parse_result" where
  "with_params r =
     (if scheme r \<in> set uses_params \<and> CHR '';'' \<in> set (path r)
      then r\<lparr>path := fst (splitparams (path r)), params := snd (splitparams (path r))\<rparr>
      else r)"

definition urlparse_with :: "(string \<Rightarrow> bool) \<Rightarrow> string \<Rightarrow> string \<Rightarrow> exn + parse_result" where
  \<comment> \<open>\<open>urlparse(url, scheme)\<close>\<close>
  "urlparse_with chk url scheme0 =
     (case urlsplit chk url scheme0 of
        Inl e \<Rightarrow> Inl e
      | Inr r \<Rightarrow> Inr (with_params r))"

definition urlparse :: "(string \<Rightarrow> bool) \<Rightarrow> string \<Rightarrow> exn + parse_result" where
  \<comment> \<open>\<open>urlparse(url)\<close>\<close>
  "urlparse chk url = urlparse_with chk url ''''"

definition urlunsplit :: "string \<Rightarrow> string \<Rightarrow> string \<Rightarrow> string \<Rightarrow> string \<Rightarrow> string" where
  "urlunsplit sch nl url qry frag =
     (if frag \<noteq> [] then (\<lambda>s. s @ ''#'' @ frag) else id)
       ((if qry \<noteq> [] then (\<lambda>s. s @ ''?'' @ qry) else id)
         ((if sch \<noteq> [] then (\<lambda>s. sch @ '':'' @ s) else id)
           (if nl \<noteq> [] \<or> (sch \<noteq> [] \<and> sch \<in> set uses_netloc) \<or> take 2 url = ''//''
            then ''//'' @ nl @ (if url \<noteq> [] \<and> take 1 url \<noteq> ''/'' then ''/'' @ url else url)
            else url)))"

definition urlunparse :: "parse_result \<Rightarrow> string" where
  "urlunparse r =
     urlunsplit (scheme r) (netloc r)
       (if params r \<noteq> [] then path r @ '';'' @ params r else path r)
       (query_string r) (fragment r)"

definition pop_last :: "string list \<Rightarrow> string list" where
  \<comment> \<open>\<open>resolved_path.pop()\<close> with its \<open>IndexError\<close> ignored, and \<open>del base_parts[-1]\<close>\<close>
  "pop_last xs = butlast xs"

definition filter_inner :: "string list \<Rightarrow> string list" where
  \<comment> \<open>\<open>segments[1:-1] = filter(None, segments[1:-1])\<close>\<close>
  "filter_inner segs =
     (if length segs < 2 then segs
      else hd segs # filter (\<lambda>s. s \<noteq> []) (butlast (tl segs)) @ [last segs])"

fun resolve :: "string list \<Rightarrow> string list \<Rightarrow> string list" where
  \<comment> \<open>the loop over the segments: \<open>..\<close> pops, \<open>.\<close> is skipped, anything else is appended\<close>
  "resolve resolved_path [] = resolved_path"
| "resolve resolved_path (seg # segs) =
     (if seg = ''..'' then resolve (pop_last resolved_path) segs
      else if seg = ''.'' then resolve resolved_path segs
      else resolve (resolved_path @ [seg]) segs)"

definition join_path :: "string \<Rightarrow> string \<Rightarrow> string" where
  \<comment> \<open>the path of \<open>urljoin\<close>'s result, from the base path and a non-empty relative one\<close>
  "join_path bpath pth =
     (let base_parts = (if last (split_on CHR ''/'' bpath) \<noteq> []
                        then pop_last (split_on CHR ''/'' bpath)
                        else split_on CHR ''/'' bpath);
          segments = (if take 1 pth = ''/'' then split_on CHR ''/'' pth
                      else filter_inner (base_parts @ split_on CHR ''/'' pth));
          resolved_path = resolve [] segments;
          resolved = (if last segments = ''.'' \<or> last segments = ''..''
                      then resolved_path @ [[]] else resolved_path)
      in if join ''/'' resolved = [] then ''/'' else join ''/'' resolved)"

definition urljoin_parsed :: "string \<Rightarrow> parse_result \<Rightarrow> parse_result \<Rightarrow> string" where
  \<comment> \<open>\<open>urljoin\<close> once the base (\<open>b\<close>) and the URL (\<open>u\<close>) are parsed\<close>
  "urljoin_parsed url b u =
     (if scheme u \<noteq> scheme b \<or> scheme u \<notin> set uses_relative then url
      else if scheme u \<in> set uses_netloc \<and> netloc u \<noteq> [] then urlunparse u
      else if path u = [] \<and> params u = []
      then urlunparse (u\<lparr>netloc := (if scheme u \<in> set uses_netloc then netloc b else netloc u),
                          path := path b, params := params b,
                          query_string := (if query_string u = [] then query_string b else query_string u)\<rparr>)
      else urlunparse (u\<lparr>netloc := (if scheme u \<in> set uses_netloc then netloc b else netloc u),
                          path := join_path (path b) (path u)\<rparr>))"

definition urljoin :: "(string \<Rightarrow> bool) \<Rightarrow> string \<Rightarrow> string \<Rightarrow> exn + string" where
  \<comment> \<open>\<open>urljoin(base, url)\<close>\<close>
  "urljoin chk base url =
     (if base = [] then Inr url
      else if url = [] then Inr base
      else (case urlparse chk base of
              Inl e \<Rightarrow> Inl e
            | Inr b \<Rightarrow>
                (case urlparse_with chk url (scheme b) of
                   Inl e \<Rightarrow> Inl e
                 | Inr u \<Rightarrow> Inr (urljoin_parsed url b u))))"

section \<open>The navigation pattern\<close>

text \<open>
  \<open>re.findall(r"window\.location\.href\s*=\s*['\"]([^'\"]+)['\"]", onclick)\<close>, with no
  flag. Each repetition of the pattern is followed by a character outside its class, so
  the greedy match is the only one and no backtracking is needed. \<open>\s\<close> is the Unicode
  white space of a \<open>str\<close> pattern: below 256, the code points 9-13, 28-32, 133 and 160.
\<close>

definition is_space :: "char \<Rightarrow> bool" where
  "is_space c \<longleftrightarrow>
     (9 \<le> (of_char c :: nat) \<and> (of_char c :: nat) \<le> 13)
     \<or> (28 \<le> (of_char c :: nat) \<and> (of_char c :: nat) \<le> 32)
     \<or> (of_char c :: nat) = 133 \<or> (of_char c :: nat) = 160"

definition is_quote :: "char \<Rightarrow> bool" where
  \<comment> \<open>the class \<open>['\"]\<close>\<close>
  "is_quote c \<longleftrightarrow> c = CHR 0x27 \<or> c = CHR 0x22"

fun strip_prefix :: "string \<Rightarrow> string \<Rightarrow> string option" where
  \<comment> \<open>the text after a literal prefix, compared character by character\<close>
  "strip_prefix [] s = Some s"
| "strip_prefix (p # ps) [] = None"
| "strip_prefix (p # ps) (c # cs) = (if p = c then strip_prefix ps cs else None)"

definition match_target :: "string \<Rightarrow> (string \<times> string) option" where
  \<comment> \<open>\<open>([^'\"]+)['\"]\<close> at the start of \<open>s\<close>: the group and the text after the match\<close>
  "match_target s =
     (case dropWhile (\<lambda>c. \<not> is_quote c) s of
        [] \<Rightarrow> None
      | q # rest \<Rightarrow>
          if takeWhile (\<lambda>c. \<not> is_quote c) s = [] then None
          else Some (takeWhile (\<lambda>c. \<not> is_quote c) s, rest))"

definition match_assign :: "string \<Rightarrow> (string \<times> string) option" where
  \<comment> \<open>\<open>\s*=\s*['\"]([^'\"]+)['\"]\<close> at the start of \<open>s\<close>\<close>
  "match_assign s =
     (case dropWhile is_space s of
        [] \<Rightarrow> None
      | c # r \<Rightarrow>
          if c \<noteq> CHR ''='' then None
          else (case dropWhile is_space r of
                  [] \<Rightarrow> None
                | q # r' \<Rightarrow> if is_quote q then match_target r' else None))"

definition match_nav :: "string \<Rightarrow> (string \<times> string) option" where
  \<comment> \<open>the whole pattern at the start of \<open>s\<close>\<close>
  "match_nav s =
     (case strip_prefix ''window.location.href'' s of
        None \<Rightarrow> None
      | Some r \<Rightarrow> match_assign r)"

function findall_nav :: "string \<Rightarrow> string list" where
  \<comment> \<open>\<open>re.findall\<close>: the groups of the matches from left to right, the search resuming
      where the last match ended\<close>
  "findall_nav [] = []"
| "findall_nav (c # cs) =
     (case match_nav (c # cs) of
        Some (g, rest) \<Rightarrow> g # findall_nav rest
      | None \<Rightarrow> findall_nav cs)"
  by pat_completeness auto
termination
proof (relation "measure length")
  show "wf (measure length)" by simp
next
  fix c :: char and cs :: string and x2 :: "string \<times> string" and g rest :: string
  assume m: "match_nav (c # cs) = Some x2" and x: "(g, rest) = x2"
  have tgt: "length r \<le> length s" if "match_target s = Some (g', r)" for s g' r
  proof -
    from that obtain q where "dropWhile (\<lambda>c. \<not> is_quote c) s = q # r"
      by (auto simp add: match_target_def split: list.splits if_splits)
    then have "length (q # r) \<le> length s"
      using length_dropWhile_le [of "\<lambda>c. \<not> is_quote c" s] by simp
    then show ?thesis by simp
  qed
  have asg: "length r \<le> length s" if "match_assign s = Some (g', r)" for s g' r
  proof -
    from that obtain c r1 q r2 where
      d1: "dropWhile is_space s = c # r1" and d2: "dropWhile is_space r1 = q # r2"
      and t: "match_target r2 = Some (g', r)"
      by (auto simp add: match_assign_def split: list.splits if_splits)
    have "length (c # r1) \<le> length s"
      using length_dropWhile_le [of is_space s] d1 by simp
    moreover have "length (q # r2) \<le> length r1"
      using length_dropWhile_le [of is_space r1] d2 by simp
    moreover have "length r \<le> length r2" using tgt [OF t] .
    ultimately show ?thesis by simp
  qed
  have pre: "length r + length ps = length s" if "strip_prefix ps s = Some r" for ps s r
    using that by (induction ps s rule: strip_prefix.induct) (auto split: if_splits)
  from m x obtain r where "strip_prefix ''window.location.href'' (c # cs) = Some r"
    and "match_assign r = Some (g, rest)"
    by (auto simp add: match_nav_def split: option.splits)
  then have "length rest < length (c # cs)"
    using pre [of "''window.location.href''" "c # cs" r] asg [of r g rest] by simp
  then show "(rest, c # cs) \<in> measure length" by simp
next
  fix c :: char and cs :: string
  show "(cs, c # cs) \<in> measure length" by simp
qed

section \<open>URL discovery\<close>

text \<open>
  The page behind a URL, as \<open>requests.get\<close> and \<open>BeautifulSoup\<close> give it: the request
  raises, or answers with a status code and a body; the body parses to the \<open>href\<close>
  values of its \<open>a\<close> elements and the \<open>onclick\<close> values of its elements, in document order,
  or the parser raises (\<open>None\<close>).
\<close>

record soup =
  a_hrefs :: "string list"
  onclicks :: "string list"

datatype http_result =
    Request_raises
  | Response (status_code: int) (content: "soup option")

record crawl_state =
  to_visit :: "(string \<times> int) list"
  visited :: "string list"
  discovered_urls :: "string list"
  requested :: "(string \<times> int) list"
    \<comment> \<open>the calls of \<open>requests.get\<close> so far, with the depth of each, oldest first\<close>

fun follow_links ::
  "(string \<Rightarrow> bool) \<Rightarrow> string \<Rightarrow> string \<Rightarrow> string list \<Rightarrow> string list \<Rightarrow> string list \<times> bool"
where
  \<comment> \<open>one of the two loops over the link targets of the page at \<open>url\<close>: the URLs it
      appends to \<open>to_visit\<close>, in order, and whether it ran to its end (an exception of
      \<open>urljoin\<close> or \<open>urlparse\<close> leaves the loop and keeps what was appended before)\<close>
  "follow_links chk base_url url vis [] = ([], True)"
| "follow_links chk base_url url vis (href # hrefs) =
     (case urljoin chk url href of
        Inl e \<Rightarrow> ([], False)
      | Inr full_url \<Rightarrow>
          (case urlparse chk full_url of
             Inl e \<Rightarrow> ([], False)
           | Inr p \<Rightarrow>
               (case urlparse chk base_url of
                  Inl e \<Rightarrow> ([], False)
                | Inr b \<Rightarrow>
                    (case follow_links chk base_url url vis hrefs of
                       (new, finished) \<Rightarrow>
                         if netloc p = netloc b \<and> full_url \<notin> set vis
                         then (full_url # new, finished)
                         else (new, finished)))))"

definition page_links ::
  "(string \<Rightarrow> bool) \<Rightarrow> string \<Rightarrow> string \<Rightarrow> string list \<Rightarrow> soup \<Rightarrow> string list"
where
  \<comment> \<open>the URLs a parsed page adds to \<open>to_visit\<close>: the anchors first, then, when that loop
      ended normally, the navigation targets of the \<open>onclick\<close> attributes\<close>
  "page_links chk base_url url vis sp =
     (case follow_links chk base_url url vis (a_hrefs sp) of
        (new, finished) \<Rightarrow>
          if finished
          then new @ fst (follow_links chk base_url url vis
                            (concat (map findall_nav (onclicks sp))))
          else new)"

definition fetch ::
  "(string \<Rightarrow> bool) \<Rightarrow> (string \<Rightarrow> http_result) \<Rightarrow> string \<Rightarrow> int \<Rightarrow> string \<Rightarrow> int
     \<Rightarrow> crawl_state \<Rightarrow> crawl_state"
where
  \<comment> \<open>the \<open>try\<close> block of one iteration, on the state in which \<open>url\<close> is already visited\<close>
  "fetch chk http_get base_url max_depth url depth st =
     (case http_get url of
        Request_raises \<Rightarrow> st
      | Response code body \<Rightarrow>
          if code = 200
          then (if depth < max_depth
                then (case body of
                        None \<Rightarrow> st\<lparr>discovered_urls := List.insert url (discovered_urls st)\<rparr>
                      | Some sp \<Rightarrow>
                          st\<lparr>discovered_urls := List.insert url (discovered_urls st),
                             to_visit := to_visit st
                               @ map (\<lambda>u. (u, depth + 1))
                                   (page_links chk base_url url (visited st) sp)\<rparr>)
                else st\<lparr>discovered_urls := List.insert url (discovered_urls st)\<rparr>)
          else st)"

definition visit ::
  "(string \<Rightarrow> bool) \<Rightarrow> (string \<Rightarrow> http_result) \<Rightarrow> string \<Rightarrow> int \<Rightarrow> string \<Rightarrow> int
     \<Rightarrow> crawl_state \<Rightarrow> crawl_state"
where
  \<comment> \<open>one iteration of the \<open>while\<close> loop, after \<open>(url, depth)\<close> was popped\<close>
  "visit chk http_get base_url max_depth url depth st =
     (if url \<in> set (visited st) \<or> depth > max_depth then st
      else fetch chk http_get base_url max_depth url depth
             (st\<lparr>visited := url # visited st,
                 requested := requested st @ [(url, depth)]\<rparr>))"

text \<open>
  The loop ends because a queue entry at depth \<open>d\<close> can only bring entries at depth
  \<open>d + 1\<close>, finitely many, and none beyond \<open>max_depth\<close>. \<open>crawl_size k url\<close> counts the
  entries that \<open>url\<close> can bring within \<open>k\<close> more levels, itself included, over all the
  targets of its page; the sum of these sizes over the queue decreases at each iteration.
\<close>

definition joined :: "(string \<Rightarrow> bool) \<Rightarrow> string \<Rightarrow> string list \<Rightarrow> string list" where
  "joined chk url hrefs =
     concat (map (\<lambda>h. case urljoin chk url h of Inl e \<Rightarrow> [] | Inr f \<Rightarrow> [f]) hrefs)"

definition link_targets :: "(string \<Rightarrow> bool) \<Rightarrow> (string \<Rightarrow> http_result) \<Rightarrow> string \<Rightarrow> string list" where
  "link_targets chk http_get url =
     (case http_get url of
        Request_raises \<Rightarrow> []
      | Response code body \<Rightarrow>
          (case body of
             None \<Rightarrow> []
           | Some sp \<Rightarrow> joined chk url (a_hrefs sp @ concat (map findall_nav (onclicks sp)))))"

primrec crawl_size :: "(string \<Rightarrow> bool) \<Rightarrow> (string \<Rightarrow> http_result) \<Rightarrow> nat \<Rightarrow> string \<Rightarrow> nat" where
  "crawl_size chk http_get 0 url = 1"
| "crawl_size chk http_get (Suc k) url =
     Suc (sum_list (map (crawl_size chk http_get k) (link_targets chk http_get url)))"

definition entry_size ::
  "(string \<Rightarrow> bool) \<Rightarrow> (string \<Rightarrow> http_result) \<Rightarrow> int \<Rightarrow> string \<times> int \<Rightarrow> nat"
where
  "entry_size chk http_get max_depth e =
     (if snd e > max_depth then 1
      else crawl_size chk http_get (nat (max_depth - snd e)) (fst e))"

function crawl ::
  "(string \<Rightarrow> bool) \<Rightarrow> (string \<Rightarrow> http_result) \<Rightarrow> string \<Rightarrow> int \<Rightarrow> crawl_state \<Rightarrow> crawl_state"
where
  \<comment> \<open>\<open>while to_visit: url, depth = to_visit.pop(0); ...\<close>\<close>
  "crawl chk http_get base_url max_depth st =
     (case to_visit st of
        [] \<Rightarrow> st
      | e # rest \<Rightarrow>
          crawl chk http_get base_url max_depth
            (visit chk http_get base_url max_depth (fst e) (snd e) (st\<lparr>to_visit := rest\<rparr>)))"
  by pat_completeness auto
termination
proof (relation "measure (\<lambda>(chk, http_get, base_url, max_depth, st).
                   sum_list (map (entry_size chk http_get max_depth) (to_visit st)))")
  show "wf (measure (\<lambda>(chk, http_get, base_url, max_depth, st).
              sum_list (map (entry_size chk http_get max_depth) (to_visit st))))"
    by simp
next
  fix chk :: "string \<Rightarrow> bool" and http_get :: "string \<Rightarrow> http_result"
    and base_url :: string and max_depth :: int and st :: crawl_state
    and e :: "string \<times> int" and rest :: "(string \<times> int) list"
  assume q: "to_visit st = e # rest"
  let ?sz = "entry_size chk http_get max_depth"
  obtain url depth where e: "e = (url, depth)" by (cases e)
  have pos: "0 < crawl_size chk http_get k u" for k u
    by (cases k) simp_all
  have follow: "sum_list (map f (fst (follow_links chk base_url url vis hs)))
                  \<le> sum_list (map f (joined chk url hs))"
    for f :: "string \<Rightarrow> nat" and vis hs
  proof (induction hs)
    case Nil
    show ?case by (simp add: joined_def)
  next
    case (Cons h hs)
    then show ?case
      by (auto simp add: joined_def split: sum.splits prod.splits)
  qed
  have links: "sum_list (map f (page_links chk base_url url vis sp))
                 \<le> sum_list (map f (joined chk url
                       (a_hrefs sp @ concat (map findall_nav (onclicks sp)))))"
    for f :: "string \<Rightarrow> nat" and vis sp
  proof -
    have split: "joined chk url (xs @ ys) = joined chk url xs @ joined chk url ys" for xs ys
      by (simp add: joined_def)
    have "sum_list (map f (page_links chk base_url url vis sp))
            \<le> sum_list (map f (fst (follow_links chk base_url url vis (a_hrefs sp))))
              + sum_list (map f (fst (follow_links chk base_url url vis
                                        (concat (map findall_nav (onclicks sp))))))"
      by (simp add: page_links_def split: prod.splits)
    also have "\<dots> \<le> sum_list (map f (joined chk url (a_hrefs sp)))
                   + sum_list (map f (joined chk url (concat (map findall_nav (onclicks sp)))))"
      using follow [of f vis "a_hrefs sp"]
        follow [of f vis "concat (map findall_nav (onclicks sp))"]
      by (rule add_mono)
    finally show ?thesis by (simp add: split)
  qed
  have step: "sum_list (map ?sz (to_visit (visit chk http_get base_url max_depth url depth
                                            (st\<lparr>to_visit := rest\<rparr>))))
                < ?sz (url, depth) + sum_list (map ?sz rest)"
  proof (cases "url \<in> set (visited st) \<or> depth > max_depth")
    case True
    then have "visit chk http_get base_url max_depth url depth (st\<lparr>to_visit := rest\<rparr>)
                 = st\<lparr>to_visit := rest\<rparr>"
      by (auto simp add: visit_def)
    moreover have "0 < ?sz (url, depth)"
      using pos by (simp add: entry_size_def)
    ultimately show ?thesis by simp
  next
    case False
    then have le: "depth \<le> max_depth" by simp
    let ?st = "st\<lparr>to_visit := rest, visited := url # visited st,
                   requested := requested st @ [(url, depth)]\<rparr>"
    have v: "visit chk http_get base_url max_depth url depth (st\<lparr>to_visit := rest\<rparr>)
               = fetch chk http_get base_url max_depth url depth ?st"
      using False by (simp add: visit_def)
    show ?thesis
    proof (cases "\<exists>sp. http_get url = Response 200 (Some sp) \<and> depth < max_depth")
      case True
      then obtain sp where r: "http_get url = Response 200 (Some sp)"
        and lt: "depth < max_depth" by blast
      define k where "k = nat (max_depth - (depth + 1))"
      have k: "nat (max_depth - depth) = Suc k"
        using lt by (simp add: k_def)
      have new: "sum_list (map ?sz (map (\<lambda>u. (u, depth + 1))
                             (page_links chk base_url url (visited ?st) sp)))
                   = sum_list (map (crawl_size chk http_get k)
                             (page_links chk base_url url (visited ?st) sp))"
        using lt by (simp add: entry_size_def k_def comp_def)
      have "sum_list (map (crawl_size chk http_get k)
                        (page_links chk base_url url (visited ?st) sp))
              \<le> sum_list (map (crawl_size chk http_get k) (link_targets chk http_get url))"
        using links [of "crawl_size chk http_get k" "visited ?st" sp]
        by (simp add: link_targets_def r)
      also have "\<dots> < ?sz (url, depth)"
        using le k by (simp add: entry_size_def)
      finally have "sum_list (map ?sz (map (\<lambda>u. (u, depth + 1))
                               (page_links chk base_url url (visited ?st) sp)))
                      < ?sz (url, depth)"
        using new by simp
      moreover have "to_visit (fetch chk http_get base_url max_depth url depth ?st)
                       = rest @ map (\<lambda>u. (u, depth + 1))
                                  (page_links chk base_url url (visited ?st) sp)"
        using r lt by (simp add: fetch_def)
      ultimately show ?thesis using v by simp
    next
      case False
      then have "to_visit (fetch chk http_get base_url max_depth url depth ?st) = rest"
        by (auto simp add: fetch_def split: http_result.splits option.splits)
      moreover have "0 < ?sz (url, depth)"
        using pos by (simp add: entry_size_def)
      ultimately show ?thesis using v by simp
    qed
  qed
  show "((chk, http_get, base_url, max_depth,
          visit chk http_get base_url max_depth (fst e) (snd e) (st\<lparr>to_visit := rest\<rparr>)),
         (chk, http_get, base_url, max_depth, st))
        \<in> measure (\<lambda>(chk, http_get, base_url, max_depth, st).
                     sum_list (map (entry_size chk http_get max_depth) (to_visit st)))"
    using step q e by simp
qed

definition start :: "string \<Rightarrow> crawl_state" where
  \<comment> \<open>the state before the loop\<close>
  "start base_url =
     \<lparr>to_visit = [(base_url, 0)], visited = [], discovered_urls = [], requested = []\<rparr>"

definition discover_urls ::
  "(string \<Rightarrow> bool) \<Rightarrow> (string \<Rightarrow> http_result) \<Rightarrow> string \<Rightarrow> int \<Rightarrow> string list"
where
  \<comment> \<open>the discovered URLs, last found first; Python returns them as \<open>list(set)\<close>, in an
      order of its own\<close>
  "discover_urls chk http_get base_url max_depth =
     discovered_urls (crawl chk http_get base_url max_depth (start base_url))"

definition crawl_log ::
  "(string \<Rightarrow> bool) \<Rightarrow> (string \<Rightarrow> http_result) \<Rightarrow> string \<Rightarrow> int \<Rightarrow> (string \<times> int) list"
where
  \<comment> \<open>the requests that a run of \<open>discover_urls\<close> makes, in order\<close>
  "crawl_log chk http_get base_url max_depth =
     requested (crawl chk http_get base_url max_depth (start base_url))"

definition netloc_of :: "(string \<Rightarrow> bool) \<Rightarrow> string \<Rightarrow> string option" where
  \<comment> \<open>\<open>urlparse(u).netloc\<close>, \<open>None\<close> when \<open>urlparse\<close> raises\<close>
  "netloc_of chk u = (case urlparse chk u of Inl e \<Rightarrow> None | Inr p \<Rightarrow> Some (netloc p))"

definition scheme_of :: "(string \<Rightarrow> bool) \<Rightarrow> string \<Rightarrow> string option" where
  \<comment> \<open>\<open>urlparse(u).scheme\<close>, \<open>None\<close> when \<open>urlparse\<close> raises\<close>
  "scheme_of chk u = (case urlparse chk u of Inl e \<Rightarrow> None | Inr p \<Rightarrow> Some (scheme p))"

section \<open>Homepage classifier\<close>

definition homepage_paths :: "string list" where
  "homepage_paths = ['''', ''index.html'', ''index.htm'', ''index.php'',
                     ''home.html'', ''home.htm'', ''default.html'', ''default.htm'']"

definition is_homepage_url :: "(string \<Rightarrow> bool) \<Rightarrow> string \<Rightarrow> string \<Rightarrow> exn + bool" where
  "is_homepage_url chk url base_url =
     (case urlparse chk base_url of
        Inl e \<Rightarrow> Inl e
      | Inr base_parsed \<Rightarrow>
          (case urlparse chk url of
             Inl e \<Rightarrow> Inl e
           | Inr url_parsed \<Rightarrow>
               if scheme base_parsed \<noteq> scheme url_parsed
                  \<or> netloc base_parsed \<noteq> netloc url_parsed
               then Inr False
               else Inr (strip ''/'' (lower (path url_parsed)) \<in> set homepage_paths)))"


text \<open>
  The classifier compares network locations. The host of a URL is what \<open>urllib.parse\<close>
  gives as \<open>ParseResult.hostname\<close>: the network location without user information and
  port, in lower case.
\<close>

definition hostinfo :: "string \<Rightarrow> string" where
  \<comment> \<open>the host name of \<open>_hostinfo\<close>: the text after the last \<open>@\<close>, inside the brackets
      when there is one, before the first colon otherwise\<close>
  "hostinfo nl =
     (let after_at = rev (takeWhile (\<lambda>c. c \<noteq> CHR ''@'') (rev nl))
      in if CHR ''['' \<in> set after_at
         then before_char CHR '']'' (after_char CHR ''['' after_at)
         else before_char CHR '':'' after_at)"

definition hostname :: "parse_result \<Rightarrow> string option" where
  \<comment> \<open>\<open>hostname\<close>: \<open>None\<close> without a host; the zone after \<open>%\<close> keeps its case\<close>
  "hostname p =
     (if hostinfo (netloc p) = [] then None
      else Some (lower (before_char CHR ''%'' (hostinfo (netloc p)))
                 @ dropWhile (\<lambda>c. c \<noteq> CHR ''%'') (hostinfo (netloc p))))"

definition hostname_of :: "(string \<Rightarrow> bool) \<Rightarrow> string \<Rightarrow> string option" where
  "hostname_of chk u = (case urlparse chk u of Inl e \<Rightarrow> None | Inr p \<Rightarrow> hostname p)"

section \<open>Floats and list.sort\<close>

text \<open>
  A Python float is not-a-number, an infinity or a finite value, taken as a real number
  (\<open>-0.0\<close> and \<open>0.0\<close>, which compare equal, are one value). \<open>float_lt\<close> is \<open><\<close>: false
  as soon as one side is NaN.

  \<open>list_sort\<close> is \<open>list.sort\<close> (CPython 3.11, \<open>Objects/listobject.c\<close>) on the comparison
  \<open>lt\<close> of the keys, for a list of fewer than 64 elements: \<open>count_run\<close> takes the run the
  list starts with, reversed when it is strictly descending, and \<open>binarysort\<close> inserts the
  other elements one by one at the place a binary search gives. A longer list is cut in
  runs that are merged; the result is then the same list as long as no key is NaN, since a
  stable sort has one result, and may differ from this function when a key is NaN.
\<close>

datatype pyfloat = NaN | NegInf | Finite real | PosInf

fun float_lt :: "pyfloat \<Rightarrow> pyfloat \<Rightarrow> bool" where
  "float_lt NaN y = False"
| "float_lt x NaN = False"
| "float_lt NegInf y = (y \<noteq> NegInf)"
| "float_lt (Finite a) NegInf = False"
| "float_lt (Finite a) (Finite b) = (a < b)"
| "float_lt (Finite a) PosInf = True"
| "float_lt PosInf y = False"

definition float_le :: "pyfloat \<Rightarrow> pyfloat \<Rightarrow> bool" where
  \<comment> \<open>\<open><=\<close> on floats\<close>
  "float_le x y \<longleftrightarrow> x \<noteq> NaN \<and> y \<noteq> NaN \<and> \<not> float_lt y x"

fun take_run :: "('a \<Rightarrow> 'a \<Rightarrow> bool) \<Rightarrow> 'a \<Rightarrow> 'a list \<Rightarrow> 'a list \<times> 'a list" where
  \<comment> \<open>the elements that go on the run after \<open>prev\<close>, and the others\<close>
  "take_run goes_on prev [] = ([], [])"
| "take_run goes_on prev (x # xs) =
     (if goes_on x prev
      then (case take_run goes_on x xs of (run, others) \<Rightarrow> (x # run, others))
      else ([], x # xs))"

definition count_run :: "('a \<Rightarrow> 'a \<Rightarrow> bool) \<Rightarrow> 'a list \<Rightarrow> 'a list \<times> 'a list" where
  \<comment> \<open>\<open>count_run\<close> and the reversal of a descending run: the first run, in ascending
      order, and the elements after it\<close>
  "count_run lt xs =
     (case xs of
        [] \<Rightarrow> ([], [])
      | x0 # ys \<Rightarrow>
          (case ys of
             [] \<Rightarrow> ([x0], [])
           | x1 # zs \<Rightarrow>
               if lt x1 x0
               then (case take_run lt x1 zs of
                       (run, others) \<Rightarrow> (rev (x0 # x1 # run), others))
               else (case take_run (\<lambda>x prev. \<not> lt x prev) x1 zs of
                       (run, others) \<Rightarrow> (x0 # x1 # run, others))))"

function bisect :: "('a \<Rightarrow> 'a \<Rightarrow> bool) \<Rightarrow> 'a \<Rightarrow> 'a list \<Rightarrow> nat \<Rightarrow> nat \<Rightarrow> nat" where
  \<comment> \<open>the loop of \<open>binarysort\<close> that narrows \<open>[l, r)\<close> to the place of the pivot\<close>
  "bisect lt pivot xs l r =
     (if l < r
      then (if lt pivot (xs ! (l + (r - l) div 2))
            then bisect lt pivot xs l (l + (r - l) div 2)
            else bisect lt pivot xs (l + (r - l) div 2 + 1) r)
      else l)"
  by pat_completeness auto
termination
  by (relation "measure (\<lambda>(lt, pivot, xs, l, r). r - l)") auto

definition insert_at :: "nat \<Rightarrow> 'a \<Rightarrow> 'a list \<Rightarrow> 'a list" where
  "insert_at i x xs = take i xs @ x # drop i xs"

fun binarysort :: "('a \<Rightarrow> 'a \<Rightarrow> bool) \<Rightarrow> 'a list \<Rightarrow> 'a list \<Rightarrow> 'a list" where
  \<comment> \<open>\<open>binarysort\<close>, from the sorted part and the elements still to insert\<close>
  "binarysort lt front [] = front"
| "binarysort lt front (pivot # others) =
     binarysort lt (insert_at (bisect lt pivot front 0 (length front)) pivot front) others"

definition list_sort :: "('a \<Rightarrow> 'a \<Rightarrow> bool) \<Rightarrow> 'a list \<Rightarrow> 'a list" where
  "list_sort lt xs =
     (if length xs < 2 then xs
      else (case count_run lt xs of (run, others) \<Rightarrow> binarysort lt run others))"

section \<open>The service\<close>

text \<open>
  The external collaborators are parameters. \<open>load_data\<close> is
  \<open>SimpleWebPageReader.load_data([url])\<close>, \<open>get_nodes_from_documents\<close> the node parser,
  \<open>insert_raises\<close> tells whether \<open>index.insert_nodes\<close> raises on these nodes (it stores all
  of them otherwise), and \<open>engine_query\<close> is the query engine over the stored nodes; \<open>Inl\<close>
  is an exception, for the engine with the text of \<open>str(e)\<close>. A score is \<open>None\<close> or a
  Python float, and \<open>float(node.score)\<close> is that float. The engine is built with
  \<open>similarity_top_k=5\<close>, so that an answer of LlamaIndex cites five chunks or fewer; the
  engine of the model may cite any number. The Chroma client and the model constructors are taken
  to work as documented: \<open>get_collection\<close> raises exactly when the collection is absent,
  \<open>create_collection\<close> then succeeds.
\<close>

record document =
  doc_text :: string
  doc_metadata :: "(string \<times> string) list"

record node =
  node_text :: string
  node_metadata :: "(string \<times> string) list"

record node_with_score =
  inner_node :: node
  node_score :: "pyfloat option"

record response =
  response_str :: string
  source_nodes :: "node_with_score list option"

record source_info =
  src_url :: string
  src_score :: pyfloat
  src_text_snippet :: string

datatype pyval =
    PBool bool
  | PInt int
  | PStr string
  | PList "string list"
  | PSources "source_info list"

type_synonym pydict = "(string \<times> pyval) list"

record world =
  bracketed_host_ok :: "string \<Rightarrow> bool"
  http_get :: "string \<Rightarrow> http_result"
  load_data :: "string \<Rightarrow> exn + document list"
  get_nodes_from_documents :: "document list \<Rightarrow> exn + node list"
  insert_raises :: "node list \<Rightarrow> bool"
  engine_query :: "node list \<Rightarrow> string \<Rightarrow> string + response"

record rag_service =
  chroma_collection :: "node list option"
    \<comment> \<open>the stored nodes of the collection \<open>harbor_website\<close>, \<open>None\<close> when it does not exist\<close>
  vector_store :: "unit option"
  index :: "unit option"
  query_engine :: "unit option"

definition BASE_URL :: string where
  "BASE_URL = ''http://localhost:3000''"

definition MAX_DEPTH :: int where
  "MAX_DEPTH = 3"

definition stored_nodes :: "rag_service \<Rightarrow> node list" where
  "stored_nodes st = (case chroma_collection st of None \<Rightarrow> [] | Some c \<Rightarrow> c)"

definition setup_query_engine :: "rag_service \<Rightarrow> rag_service" where
  \<comment> \<open>\<open>_setup_query_engine\<close>; both calls come after \<open>index\<close> was set\<close>
  "setup_query_engine st = st\<lparr>query_engine := Some ()\<rparr>"

definition setup_vector_store :: "rag_service \<Rightarrow> rag_service" where
  \<comment> \<open>\<open>_setup_vector_store\<close>: the collection is fetched, or created empty; the index is
      loaded from it or created empty; the query engine is set\<close>
  "setup_vector_store st =
     setup_query_engine
       (st\<lparr>chroma_collection := Some (stored_nodes st),
           vector_store := Some (), index := Some ()\<rparr>)"

definition init :: "string option \<Rightarrow> node list option \<Rightarrow> exn + rag_service" where
  \<comment> \<open>\<open>__init__\<close>, from the API key of the environment and the collection found on disk;
      \<open>Config.validate\<close> raises \<open>ValueError\<close> without a key\<close>
  "init api_key on_disk =
     (if api_key = None \<or> api_key = Some [] then Inl ValueError
      else Inr (setup_vector_store
                  \<lparr>chroma_collection = on_disk, vector_store = None, index = None,
                   query_engine = None\<rparr>))"

definition clear_collection :: "rag_service \<Rightarrow> rag_service" where
  \<comment> \<open>the first \<open>try\<close> of \<open>index_website\<close>: every stored document is deleted; an absent
      collection raises, which is caught\<close>
  "clear_collection st =
     (case chroma_collection st of
        None \<Rightarrow> st
      | Some c \<Rightarrow> if c \<noteq> [] then st\<lparr>chroma_collection := Some []\<rparr> else st)"

fun urls_to_index :: "(string \<Rightarrow> bool) \<Rightarrow> string \<Rightarrow> string list \<Rightarrow> exn + string list" where
  \<comment> \<open>\<open>[url for url in urls if not is_homepage_url(url, base_url)]\<close>; an exception of the
      classifier leaves the comprehension\<close>
  "urls_to_index chk base_url [] = Inr []"
| "urls_to_index chk base_url (u # us) =
     (case is_homepage_url chk u base_url of
        Inl e \<Rightarrow> Inl e
      | Inr h \<Rightarrow>
          (case urls_to_index chk base_url us of
             Inl e \<Rightarrow> Inl e
           | Inr r \<Rightarrow> Inr (if h then r else u # r)))"

definition dict_update :: "string \<Rightarrow> string \<Rightarrow> (string \<times> string) list \<Rightarrow> (string \<times> string) list" where
  \<comment> \<open>\<open>d[k] = v\<close>: the value is replaced in place, a new key goes to the end\<close>
  "dict_update k v d =
     (if k \<in> set (map fst d) then map (\<lambda>(k', v'). if k' = k then (k', v) else (k', v')) d
      else d @ [(k, v)])"

definition add_source :: "string \<Rightarrow> document \<Rightarrow> document" where
  \<comment> \<open>\<open>doc.metadata.update({"source_url": url, "source_type": "web_page"})\<close>\<close>
  "add_source u doc =
     doc\<lparr>doc_metadata :=
           dict_update ''source_type'' ''web_page''
             (dict_update ''source_url'' u (doc_metadata doc))\<rparr>"

definition index_url :: "world \<Rightarrow> string \<Rightarrow> node list option" where
  \<comment> \<open>the \<open>try\<close> block for one URL: the nodes it stores, or \<open>None\<close> when the URL goes to
      \<open>failed_urls\<close> (no document, or an exception)\<close>
  "index_url w u =
     (case load_data w u of
        Inl e \<Rightarrow> None
      | Inr documents \<Rightarrow>
          if documents = [] then None
          else (case get_nodes_from_documents w (map (add_source u) documents) of
                  Inl e \<Rightarrow> None
                | Inr nodes \<Rightarrow> if insert_raises w nodes then None else Some nodes))"

fun index_loop ::
  "world \<Rightarrow> string list \<Rightarrow> nat \<times> string list \<times> node list \<Rightarrow> nat \<times> string list \<times> node list"
where
  \<comment> \<open>\<open>for url in urls_to_index\<close>, on \<open>(successfully_indexed, failed_urls, stored nodes)\<close>\<close>
  "index_loop w [] acc = acc"
| "index_loop w (u # us) (n, failed_urls, stored) =
     (case index_url w u of
        None \<Rightarrow> index_loop w us (n, failed_urls @ [u], stored)
      | Some nodes \<Rightarrow> index_loop w us (n + 1, failed_urls, stored @ nodes))"

fun str_nat :: "nat \<Rightarrow> string" where
  \<comment> \<open>\<open>str(n)\<close> for a natural number\<close>
  "str_nat n =
     (if n < 10 then [''0123456789'' ! n]
      else str_nat (n div 10) @ [''0123456789'' ! (n mod 10)])"

definition index_urls ::
  "world \<Rightarrow> rag_service \<Rightarrow> string \<Rightarrow> string list \<Rightarrow> (exn + pydict) \<times> rag_service"
where
  \<comment> \<open>\<open>index_website\<close> from the list of discovered URLs on\<close>
  "index_urls w st base_url urls =
     (case urls_to_index (bracketed_host_ok w) base_url urls of
        Inl e \<Rightarrow> (Inl e, st)
      | Inr todo \<Rightarrow>
          if todo = []
          then (Inr [(''success'', PBool False),
                     (''message'', PStr ''No URLs to index after excluding homepage''),
                     (''indexed_count'', PInt 0)],
                st)
          else (case index_loop w todo (0, [], stored_nodes st) of
                  (n, failed_urls, stored) \<Rightarrow>
                    (Inr [(''success'', PBool True),
                          (''message'',
                             PStr (''Indexed '' @ str_nat n @ '' out of ''
                                   @ str_nat (length todo)
                                   @ '' URLs (homepage variations excluded)'')),
                          (''indexed_count'', PInt (int n)),
                          (''total_urls'', PInt (int (length todo))),
                          (''failed_urls'', PList failed_urls)],
                     setup_query_engine (st\<lparr>chroma_collection := Some stored\<rparr>))))"

definition index_website ::
  "world \<Rightarrow> rag_service \<Rightarrow> string option \<Rightarrow> (exn + pydict) \<times> rag_service"
where
  \<comment> \<open>the result, or the exception that leaves it, and the service afterwards\<close>
  "index_website w st base_url_arg =
     index_urls w (setup_vector_store (clear_collection st))
       (case base_url_arg of None \<Rightarrow> BASE_URL | Some b \<Rightarrow> b)
       (discover_urls (bracketed_host_ok w) (http_get w)
          (case base_url_arg of None \<Rightarrow> BASE_URL | Some b \<Rightarrow> b) MAX_DEPTH)"

definition text_snippet :: "string \<Rightarrow> string" where
  \<comment> \<open>\<open>text[:200] + "..." if len(text) > 200 else text\<close>\<close>
  "text_snippet t = (if length t > 200 then take 200 t @ ''...'' else t)"

definition float_of_None :: string where
  \<comment> \<open>the text of the \<open>TypeError\<close> of \<open>float(None)\<close>\<close>
  "float_of_None =
     ''float() argument must be a string or a real number, not '' @ [CHR 0x27]
     @ ''NoneType'' @ [CHR 0x27]"

fun extract_sources :: "node_with_score list \<Rightarrow> string + source_info list" where
  \<comment> \<open>the loop over \<open>response.source_nodes\<close>: a node without \<open>source_url\<close> is skipped, a
      score \<open>None\<close> makes \<open>float\<close> raise\<close>
  "extract_sources [] = Inr []"
| "extract_sources (n # ns) =
     (case map_of (node_metadata (inner_node n)) ''source_url'' of
        None \<Rightarrow> extract_sources ns
      | Some u \<Rightarrow>
          (case node_score n of
             None \<Rightarrow> Inl float_of_None
           | Some s \<Rightarrow>
               (case extract_sources ns of
                  Inl e \<Rightarrow> Inl e
                | Inr r \<Rightarrow>
                    Inr (\<lparr>src_url = u, src_score = s,
                          src_text_snippet = text_snippet (node_text (inner_node n))\<rparr> # r))))"

fun unique_sources :: "string list \<Rightarrow> source_info list \<Rightarrow> source_info list" where
  \<comment> \<open>the loop that fills \<open>unique_sources\<close>, from the URLs seen so far\<close>
  "unique_sources seen_urls [] = []"
| "unique_sources seen_urls (s # ss) =
     (if src_url s \<notin> set seen_urls then s # unique_sources (src_url s # seen_urls) ss
      else unique_sources seen_urls ss)"

definition sort_by_score_desc :: "source_info list \<Rightarrow> source_info list" where
  \<comment> \<open>\<open>unique_sources.sort(key=lambda x: x['score'], reverse=True)\<close>: \<open>list.sort\<close> reverses
      the list, sorts it by \<open><\<close> on the keys and reverses the result\<close>
  "sort_by_score_desc xs =
     rev (list_sort (\<lambda>a b. float_lt (src_score a) (src_score b)) (rev xs))"

definition failure :: "string \<Rightarrow> pydict" where
  "failure msg =
     [(''success'', PBool False), (''message'', PStr msg), (''response'', PStr ''''),
      (''sources'', PSources [])]"

definition query :: "world \<Rightarrow> rag_service \<Rightarrow> string \<Rightarrow> pydict" where
  "query w st question =
     (case query_engine st of
        None \<Rightarrow> failure ''RAG system not initialized. Please index content first.''
      | Some engine \<Rightarrow>
          (case engine_query w (stored_nodes st) question of
             Inl msg \<Rightarrow> failure (''Error processing query: '' @ msg)
           | Inr resp \<Rightarrow>
               (case extract_sources (case source_nodes resp of None \<Rightarrow> [] | Some ns \<Rightarrow> ns) of
                  Inl msg \<Rightarrow> failure (''Error processing query: '' @ msg)
                | Inr sources \<Rightarrow>
                    [(''success'', PBool True),
                     (''response'', PStr (response_str resp)),
                     (''sources'', PSources (sort_by_score_desc (unique_sources [] sources))),
                     (''question'', PStr question)])))"

section \<open>Example sites and services\<close>

definition any_host :: "string \<Rightarrow> bool" where
  "any_host h = True"

definition empty_page :: http_result where
  "empty_page = Response 200 (Some \<lparr>a_hrefs = [], onclicks = []\<rparr>)"

definition site_x :: "string \<Rightarrow> http_result" where
  \<comment> \<open>a home page that links to a page of the same host over https and to another host,
      and navigates to a page of its own by script\<close>
  "site_x u =
     (if u = ''http://x/''
      then Response 200
             (Some \<lparr>a_hrefs = [''https://x/a'', ''http://y/''],
                    onclicks = [''window.location.href=\"b\"'']\<rparr>)
      else if u = ''https://x/a'' then Response 200 (Some \<lparr>a_hrefs = [''/''], onclicks = []\<rparr>)
      else if u = ''http://x/b'' then Response 404 None
      else Request_raises)"

definition site_home :: "string \<Rightarrow> http_result" where
  \<comment> \<open>a site whose pages are all homepage variants\<close>
  "site_home u =
     (if u = ''http://x''
      then Response 200 (Some \<lparr>a_hrefs = [''/index.html''], onclicks = []\<rparr>)
      else if u = ''http://x/index.html'' then empty_page
      else Response 404 None)"

definition site_three :: "string \<Rightarrow> http_result" where
  \<comment> \<open>a home page with three pages behind it\<close>
  "site_three u =
     (if u = ''http://x''
      then Response 200 (Some \<lparr>a_hrefs = [''/p1'', ''/p2'', ''/p3''], onclicks = []\<rparr>)
      else if u \<in> {''http://x/p1'', ''http://x/p2'', ''http://x/p3''} then empty_page
      else Request_raises)"

definition one_node :: "document list \<Rightarrow> exn + node list" where
  \<comment> \<open>a parser that makes one node of each document\<close>
  "one_node docs =
     Inr (map (\<lambda>d. \<lparr>node_text = doc_text d, node_metadata = doc_metadata d\<rparr>) docs)"

definition no_answer :: "node list \<Rightarrow> string \<Rightarrow> string + response" where
  "no_answer stored question = Inl ''no engine''"

definition reader_three :: "string \<Rightarrow> exn + document list" where
  \<comment> \<open>the reader fails on \<open>p2\<close> and reads the other pages\<close>
  "reader_three u =
     (if u = ''http://x/p2'' then Inl OtherError
      else Inr [\<lparr>doc_text = ''text of '' @ u, doc_metadata = []\<rparr>])"

definition world_three :: world where
  "world_three =
     \<lparr>bracketed_host_ok = any_host, http_get = site_three, load_data = reader_three,
      get_nodes_from_documents = one_node, insert_raises = (\<lambda>nodes. False),
      engine_query = no_answer\<rparr>"

definition world_home :: world where
  "world_home = world_three\<lparr>http_get := site_home\<rparr>"

definition fresh :: rag_service where
  \<comment> \<open>the service inside \<open>__init__\<close>, before \<open>_setup_vector_store\<close>, with no collection on
      disk\<close>
  "fresh = \<lparr>chroma_collection = None, vector_store = None, index = None, query_engine = None\<rparr>"

definition chunk :: "string \<Rightarrow> pyfloat option \<Rightarrow> string \<Rightarrow> node_with_score" where
  "chunk u s t =
     \<lparr>inner_node = \<lparr>node_text = t, node_metadata = [(''source_url'', u)]\<rparr>, node_score = s\<rparr>"

definition answer_two :: "node list \<Rightarrow> string \<Rightarrow> string + response" where
  \<comment> \<open>an engine whose answer cites \<open>a\<close> twice, with different scores, and \<open>b\<close> and \<open>c\<close>
      once\<close>
  "answer_two stored question =
     Inr \<lparr>response_str = ''answer'',
          source_nodes = Some [chunk ''http://x/a'' (Some (Finite (1/2))) ''first'',
                               chunk ''http://x/b'' (Some (Finite (3/4))) ''second'',
                               chunk ''http://x/a'' (Some (Finite 1)) ''third'',
                               chunk ''http://x/c'' (Some (Finite (5/8))) ''fourth'']\<rparr>"

definition world_two :: world where
  "world_two = world_three\<lparr>engine_query := answer_two\<rparr>"

definition answer_nan :: "node list \<Rightarrow> string \<Rightarrow> string + response" where
  \<comment> \<open>an engine whose answer cites three pages, the second with the score NaN\<close>
  "answer_nan stored question =
     Inr \<lparr>response_str = ''answer'',
          source_nodes = Some [chunk ''http://x/a'' (Some (Finite (1/2))) ''first'',
                               chunk ''http://x/b'' (Some NaN) ''second'',
                               chunk ''http://x/c'' (Some (Finite (3/4))) ''third'']\<rparr>"

definition world_nan :: world where
  "world_nan = world_three\<lparr>engine_query := answer_nan\<rparr>"

definition answer_empty :: "node list \<Rightarrow> string \<Rightarrow> string + response" where
  \<comment> \<open>an engine that retrieves no chunk and answers as the response synthesizer of
      LlamaIndex does then\<close>
  "answer_empty stored question =
     Inr \<lparr>response_str = ''Empty Response'', source_nodes = Some []\<rparr>"

definition world_empty :: world where
  "world_empty = world_three\<lparr>engine_query := answer_empty\<rparr>"

section \<open>Evaluation rules\<close>

lemmas str_defs =
  lower_def lower_char_def lstrip_def rstrip_def strip_def
  remove_char_def before_char_def after_char_def

lemmas url_defs =
  urlparse_def urlparse_with_def with_params_def urlsplit_def split_after_scheme_def
  check_netloc_def split_tail_def clean_url_def clean_scheme_def split_scheme_def
  splitnetloc_def splitparams_def last_segment_def is_c0_control_or_space_def
  is_ascii_alpha_def is_netloc_delim_def scheme_chars_def uses_params_def

lemmas urljoin_defs =
  urljoin_def urljoin_parsed_def join_path_def filter_inner_def pop_last_def
  urlunparse_def urlunsplit_def uses_relative_def uses_netloc_def

declare crawl.simps [simp del] findall_nav.simps [simp del] str_nat.simps [simp del]
  bisect.simps [simp del]

lemmas crawl_defs =
  discover_urls_def crawl_log_def start_def crawl.simps visit_def fetch_def page_links_def
  empty_page_def MAX_DEPTH_def BASE_URL_def

lemmas nav_defs =
  findall_nav.simps match_nav_def match_assign_def match_target_def is_space_def
  is_quote_def

section \<open>Example sites, evaluated\<close>

lemma parse_http_x: "urlparse chk ''http://x'' =
  Inr \<lparr>scheme = ''http'', netloc = ''x'', path = '''', params = '''', query_string = '''', fragment = ''''\<rparr>"
  by (simp add: url_defs str_defs)

lemma parse_http_x_slash: "urlparse chk ''http://x/'' =
  Inr \<lparr>scheme = ''http'', netloc = ''x'', path = ''/'', params = '''', query_string = '''', fragment = ''''\<rparr>"
  by (simp add: url_defs str_defs)

lemma parse_https_x_a: "urlparse chk ''https://x/a'' =
  Inr \<lparr>scheme = ''https'', netloc = ''x'', path = ''/a'', params = '''', query_string = '''', fragment = ''''\<rparr>"
  by (simp add: url_defs str_defs)

lemma parse_http_y: "urlparse chk ''http://y/'' =
  Inr \<lparr>scheme = ''http'', netloc = ''y'', path = ''/'', params = '''', query_string = '''', fragment = ''''\<rparr>"
  by (simp add: url_defs str_defs)

lemma parse_http_x_b: "urlparse chk ''http://x/b'' =
  Inr \<lparr>scheme = ''http'', netloc = ''x'', path = ''/b'', params = '''', query_string = '''', fragment = ''''\<rparr>"
  by (simp add: url_defs str_defs)

lemma parse_http_x_index: "urlparse chk ''http://x/index.html'' =
  Inr \<lparr>scheme = ''http'', netloc = ''x'', path = ''/index.html'', params = '''', query_string = '''', fragment = ''''\<rparr>"
  by (simp add: url_defs str_defs)

lemma parse_http_x_p1: "urlparse chk ''http://x/p1'' =
  Inr \<lparr>scheme = ''http'', netloc = ''x'', path = ''/p1'', params = '''', query_string = '''', fragment = ''''\<rparr>"
  by (simp add: url_defs str_defs)

lemma parse_http_x_p2: "urlparse chk ''http://x/p2'' =
  Inr \<lparr>scheme = ''http'', netloc = ''x'', path = ''/p2'', params = '''', query_string = '''', fragment = ''''\<rparr>"
  by (simp add: url_defs str_defs)

lemma parse_http_x_p3: "urlparse chk ''http://x/p3'' =
  Inr \<lparr>scheme = ''http'', netloc = ''x'', path = ''/p3'', params = '''', query_string = '''', fragment = ''''\<rparr>"
  by (simp add: url_defs str_defs)

lemmas parse_table =
  parse_http_x parse_http_x_slash parse_https_x_a parse_http_y parse_http_x_b
  parse_http_x_index parse_http_x_p1 parse_http_x_p2 parse_http_x_p3

lemmas rel_defs =
  urlparse_with_def with_params_def urlsplit_def split_after_scheme_def
  check_netloc_def split_tail_def clean_url_def clean_scheme_def split_scheme_def
  splitnetloc_def splitparams_def last_segment_def is_c0_control_or_space_def
  is_ascii_alpha_def is_netloc_delim_def scheme_chars_def uses_params_def

lemma join_x_a: "urljoin chk ''http://x/'' ''https://x/a'' = Inr ''https://x/a''"
  by (simp add: urljoin_defs parse_http_x_slash rel_defs str_defs)

lemma join_x_y: "urljoin chk ''http://x/'' ''http://y/'' = Inr ''http://y/''"
  by (simp add: urljoin_defs parse_http_x_slash rel_defs str_defs)

lemma join_x_b: "urljoin chk ''http://x/'' ''b'' = Inr ''http://x/b''"
  by (simp add: urljoin_defs parse_http_x_slash rel_defs str_defs)

lemma join_x_index: "urljoin chk ''http://x'' ''/index.html'' = Inr ''http://x/index.html''"
  by (simp add: urljoin_defs parse_http_x rel_defs str_defs)

lemma join_x_p1: "urljoin chk ''http://x'' ''/p1'' = Inr ''http://x/p1''"
  by (simp add: urljoin_defs parse_http_x rel_defs str_defs)

lemma join_x_p2: "urljoin chk ''http://x'' ''/p2'' = Inr ''http://x/p2''"
  by (simp add: urljoin_defs parse_http_x rel_defs str_defs)

lemma join_x_p3: "urljoin chk ''http://x'' ''/p3'' = Inr ''http://x/p3''"
  by (simp add: urljoin_defs parse_http_x rel_defs str_defs)

lemmas join_table = join_x_a join_x_y join_x_b join_x_index join_x_p1 join_x_p2 join_x_p3

lemma nav_b: "findall_nav ''window.location.href=\"b\"'' = [''b'']"
  by (simp add: nav_defs)

lemma crawl_site_x:
  "crawl chk site_x ''http://x/'' 1 (start ''http://x/'') =
     \<lparr>to_visit = [], visited = [''http://x/b'', ''https://x/a'', ''http://x/''],
      discovered_urls = [''https://x/a'', ''http://x/''],
      requested = [(''http://x/'', 0), (''https://x/a'', 1), (''http://x/b'', 1)]\<rparr>"
  by (simp add: crawl_defs site_x_def parse_table join_table nav_b)

lemma discover_site_home:
  "discover_urls chk site_home ''http://x'' MAX_DEPTH = [''http://x/index.html'', ''http://x'']"
  by (simp add: crawl_defs site_home_def parse_table join_table)

lemma discover_site_three:
  "discover_urls chk site_three ''http://x'' MAX_DEPTH
     = [''http://x/p3'', ''http://x/p2'', ''http://x/p1'', ''http://x'']"
  by (simp add: crawl_defs site_three_def parse_table join_table)

lemma homepage_table:
  "is_homepage_url chk ''http://x'' ''http://x'' = Inr True"
  "is_homepage_url chk ''http://x/index.html'' ''http://x'' = Inr True"
  "is_homepage_url chk ''http://x/p1'' ''http://x'' = Inr False"
  "is_homepage_url chk ''http://x/p2'' ''http://x'' = Inr False"
  "is_homepage_url chk ''http://x/p3'' ''http://x'' = Inr False"
  by (simp_all add: is_homepage_url_def parse_table homepage_paths_def str_defs)


section \<open>The homepage classifier\<close>

lemma is_homepage_url_parsed:
  assumes "urlparse chk base_url = Inr b" and "urlparse chk url = Inr u"
  shows "is_homepage_url chk url base_url =
           Inr (scheme u = scheme b \<and> netloc u = netloc b
                \<and> strip ''/'' (lower (path u)) \<in> set homepage_paths)"
  using assms by (auto simp add: is_homepage_url_def)

lemma is_homepage_url_raises:
  "urlparse chk base_url = Inl e \<Longrightarrow> is_homepage_url chk url base_url = Inl e"
  "urlparse chk base_url = Inr b \<Longrightarrow> urlparse chk url = Inl e
     \<Longrightarrow> is_homepage_url chk url base_url = Inl e"
  by (simp_all add: is_homepage_url_def)

lemma hostname_netloc: "netloc u = netloc b \<Longrightarrow> hostname u = hostname b"
  by (simp add: hostname_def)

text \<open>
  C5, as amended. The classifier answers false when the scheme or the network location
  of \<open>url\<close> (\<open>urlparse\<close>'s \<open>netloc\<close>: user information, host as written and port) differs
  from that of \<open>base_url\<close>, in particular when the hosts differ; otherwise it answers true
  exactly when the path of \<open>url\<close>, lowercased and stripped of leading and trailing slashes,
  is one of the empty string, index.html, index.htm, index.php, home.html, home.htm,
  default.html, default.htm. When \<open>urlparse\<close> raises on \<open>base_url\<close> or on \<open>url\<close>, the
  classifier raises that exception. The four examples of the specification evaluate as
  it says.
\<close>

theorem is_homepage_url_classifies:
  "(urlparse chk base_url = Inr b \<and> urlparse chk url = Inr u \<longrightarrow>
      is_homepage_url chk url base_url =
        Inr (scheme u = scheme b \<and> netloc u = netloc b
             \<and> strip ''/'' (lower (path u)) \<in>
                 {'''', ''index.html'', ''index.htm'', ''index.php'',
                  ''home.html'', ''home.htm'', ''default.html'', ''default.htm''})
      \<and> (scheme u \<noteq> scheme b \<or> hostname u \<noteq> hostname b
           \<longrightarrow> is_homepage_url chk url base_url = Inr False))
   \<and> (urlparse chk base_url = Inl e \<longrightarrow> is_homepage_url chk url base_url = Inl e)
   \<and> (urlparse chk base_url = Inr b \<and> urlparse chk url = Inl e
        \<longrightarrow> is_homepage_url chk url base_url = Inl e)
   \<and> is_homepage_url chk ''http://x/'' ''http://x'' = Inr True
   \<and> is_homepage_url chk ''http://x/INDEX.HTML'' ''http://x'' = Inr True
   \<and> is_homepage_url chk ''http://x/about'' ''http://x'' = Inr False
   \<and> is_homepage_url chk ''http://y/'' ''http://x'' = Inr False"
proof -
  have general: "is_homepage_url chk url base_url =
        Inr (scheme u = scheme b \<and> netloc u = netloc b
             \<and> strip ''/'' (lower (path u)) \<in>
                 {'''', ''index.html'', ''index.htm'', ''index.php'',
                  ''home.html'', ''home.htm'', ''default.html'', ''default.htm''})"
    if "urlparse chk base_url = Inr b \<and> urlparse chk url = Inr u"
    using is_homepage_url_parsed [of chk base_url b url u] that
    by (simp add: homepage_paths_def)
  have other: "is_homepage_url chk url base_url = Inr False"
    if "urlparse chk base_url = Inr b \<and> urlparse chk url = Inr u"
      and "scheme u \<noteq> scheme b \<or> hostname u \<noteq> hostname b"
    using is_homepage_url_parsed [of chk base_url b url u] hostname_netloc [of u b] that
    by auto
  have r1: "is_homepage_url chk url base_url = Inl e" if "urlparse chk base_url = Inl e"
    using that by (rule is_homepage_url_raises(1))
  have r2: "is_homepage_url chk url base_url = Inl e"
    if "urlparse chk base_url = Inr b \<and> urlparse chk url = Inl e"
    using that is_homepage_url_raises(2) [of chk base_url b url e] by simp
  have e1: "is_homepage_url chk ''http://x/'' ''http://x'' = Inr True"
    by (simp add: is_homepage_url_def homepage_paths_def url_defs str_defs)
  have e2: "is_homepage_url chk ''http://x/INDEX.HTML'' ''http://x'' = Inr True"
    by (simp add: is_homepage_url_def homepage_paths_def url_defs str_defs)
  have e3: "is_homepage_url chk ''http://x/about'' ''http://x'' = Inr False"
    by (simp add: is_homepage_url_def homepage_paths_def url_defs str_defs)
  have e4: "is_homepage_url chk ''http://y/'' ''http://x'' = Inr False"
    by (simp add: is_homepage_url_def homepage_paths_def url_defs str_defs)
  from general other r1 r2 e1 e2 e3 e4 show ?thesis by blast
qed

text \<open>
  C5 as the specification states it fails where the network locations differ and the
  hosts do not: \<open>http://x:80/\<close> and \<open>http://X/\<close> have the scheme and the host of
  \<open>http://x\<close> and the path \<open>/\<close>, which is a homepage path, and the classifier answers
  false. On \<open>http://[x\<close>, which \<open>urlparse\<close> rejects, it answers nothing: it raises
  \<open>ValueError\<close>.
\<close>

theorem is_homepage_url_same_host:
  "urlparse any_host ''http://x'' =
     Inr \<lparr>scheme = ''http'', netloc = ''x'', path = '''', params = '''',
          query_string = '''', fragment = ''''\<rparr>
   \<and> urlparse any_host ''http://x:80/'' =
     Inr \<lparr>scheme = ''http'', netloc = ''x:80'', path = ''/'', params = '''',
          query_string = '''', fragment = ''''\<rparr>
   \<and> urlparse any_host ''http://X/'' =
     Inr \<lparr>scheme = ''http'', netloc = ''X'', path = ''/'', params = '''',
          query_string = '''', fragment = ''''\<rparr>
   \<and> hostname_of any_host ''http://x'' = Some ''x''
   \<and> hostname_of any_host ''http://x:80/'' = Some ''x''
   \<and> hostname_of any_host ''http://X/'' = Some ''x''
   \<and> strip ''/'' (lower ''/'') = ''''
   \<and> is_homepage_url any_host ''http://x:80/'' ''http://x'' = Inr False
   \<and> is_homepage_url any_host ''http://X/'' ''http://x'' = Inr False
   \<and> is_homepage_url any_host ''http://[x'' ''http://x'' = Inl ValueError"
proof -
  have b: "urlparse any_host ''http://x'' =
     Inr \<lparr>scheme = ''http'', netloc = ''x'', path = '''', params = '''',
          query_string = '''', fragment = ''''\<rparr>"
    by (simp add: url_defs str_defs)
  have p: "urlparse any_host ''http://x:80/'' =
     Inr \<lparr>scheme = ''http'', netloc = ''x:80'', path = ''/'', params = '''',
          query_string = '''', fragment = ''''\<rparr>"
    by (simp add: url_defs str_defs)
  have c: "urlparse any_host ''http://X/'' =
     Inr \<lparr>scheme = ''http'', netloc = ''X'', path = ''/'', params = '''',
          query_string = '''', fragment = ''''\<rparr>"
    by (simp add: url_defs str_defs)
  have r: "urlparse any_host ''http://[x'' = Inl ValueError"
    by (simp add: url_defs str_defs)
  have hb: "hostname_of any_host ''http://x'' = Some ''x''"
    by (simp add: hostname_of_def b hostname_def hostinfo_def str_defs)
  have hp: "hostname_of any_host ''http://x:80/'' = Some ''x''"
    by (simp add: hostname_of_def p hostname_def hostinfo_def str_defs)
  have hc: "hostname_of any_host ''http://X/'' = Some ''x''"
    by (simp add: hostname_of_def c hostname_def hostinfo_def str_defs)
  have n: "strip ''/'' (lower ''/'') = ''''"
    by (simp add: str_defs)
  have f1: "is_homepage_url any_host ''http://x:80/'' ''http://x'' = Inr False"
    by (simp add: is_homepage_url_def b p)
  have f2: "is_homepage_url any_host ''http://X/'' ''http://x'' = Inr False"
    by (simp add: is_homepage_url_def b c)
  have f3: "is_homepage_url any_host ''http://[x'' ''http://x'' = Inl ValueError"
    by (simp add: is_homepage_url_def b r)
  from b p c hb hp hc n f1 f2 f3 show ?thesis by blast
qed

theorem is_homepage_url_classifies_witness:
  "urlparse any_host ''http://x'' =
     Inr \<lparr>scheme = ''http'', netloc = ''x'', path = '''', params = '''',
          query_string = '''', fragment = ''''\<rparr>
   \<and> urlparse any_host ''http://x//Home.HTM/;v=1?a=b'' =
     Inr \<lparr>scheme = ''http'', netloc = ''x'', path = ''//Home.HTM/'', params = ''v=1'',
          query_string = ''a=b'', fragment = ''''\<rparr>
   \<and> is_homepage_url any_host ''http://x//Home.HTM/;v=1?a=b'' ''http://x'' = Inr True
   \<and> urlparse any_host ''https://y:8080/index.html'' =
     Inr \<lparr>scheme = ''https'', netloc = ''y:8080'', path = ''/index.html'', params = '''',
          query_string = '''', fragment = ''''\<rparr>
   \<and> hostname \<lparr>scheme = ''https'', netloc = ''y:8080'', path = ''/index.html'', params = '''',
          query_string = '''', fragment = ''''\<rparr> = Some ''y''
   \<and> hostname \<lparr>scheme = ''http'', netloc = ''x'', path = '''', params = '''',
          query_string = '''', fragment = ''''\<rparr> = Some ''x''
   \<and> is_homepage_url any_host ''https://y:8080/index.html'' ''http://x'' = Inr False
   \<and> urlparse any_host ''http://x]'' = Inl ValueError
   \<and> is_homepage_url any_host ''http://x'' ''http://x]'' = Inl ValueError
   \<and> is_homepage_url any_host ''http://x]'' ''http://x'' = Inl ValueError"
proof -
  let ?b = "\<lparr>scheme = ''http'', netloc = ''x'', path = '''', params = '''',
          query_string = '''', fragment = ''''\<rparr>"
  let ?y = "\<lparr>scheme = ''https'', netloc = ''y:8080'', path = ''/index.html'', params = '''',
          query_string = '''', fragment = ''''\<rparr>"
  have b: "urlparse any_host ''http://x'' = Inr ?b"
    by (simp add: url_defs str_defs)
  have u: "urlparse any_host ''http://x//Home.HTM/;v=1?a=b'' =
     Inr \<lparr>scheme = ''http'', netloc = ''x'', path = ''//Home.HTM/'', params = ''v=1'',
          query_string = ''a=b'', fragment = ''''\<rparr>"
    by (simp add: url_defs str_defs)
  have y: "urlparse any_host ''https://y:8080/index.html'' = Inr ?y"
    by (simp add: url_defs str_defs)
  have r: "urlparse any_host ''http://x]'' = Inl ValueError"
    by (simp add: url_defs str_defs)
  have n: "strip ''/'' (lower ''//Home.HTM/'') = ''home.htm''"
    by (simp add: str_defs)
  have hy: "hostname ?y = Some ''y''"
    by (simp add: hostname_def hostinfo_def str_defs)
  have hb: "hostname ?b = Some ''x''"
    by (simp add: hostname_def hostinfo_def str_defs)
  have t1: "is_homepage_url any_host ''http://x//Home.HTM/;v=1?a=b'' ''http://x'' = Inr True"
    using is_homepage_url_classifies [of any_host "''http://x''" ?b
      "''http://x//Home.HTM/;v=1?a=b''" _ ValueError] b u n
    by simp
  have t2: "is_homepage_url any_host ''https://y:8080/index.html'' ''http://x'' = Inr False"
    using is_homepage_url_classifies [of any_host "''http://x''" ?b
      "''https://y:8080/index.html''" ?y ValueError] b y hy hb
    by simp
  have t3: "is_homepage_url any_host ''http://x'' ''http://x]'' = Inl ValueError"
    using is_homepage_url_classifies [of any_host "''http://x]''" ?b
      "''http://x''" ?b ValueError] r
    by simp
  have t4: "is_homepage_url any_host ''http://x]'' ''http://x'' = Inl ValueError"
    using is_homepage_url_classifies [of any_host "''http://x''" ?b
      "''http://x]''" ?b ValueError] b r
    by simp
  from b u y hy hb r t1 t2 t3 t4 show ?thesis by blast
qed

section \<open>Query and indexing\<close>

text \<open>
  A service that \<open>__init__\<close> has built always has its query engine, over an index that is
  empty when nothing is stored, and \<open>index_website\<close> sets the engine again on every path:
  the guard of \<open>query\<close> is for the state inside \<open>__init__\<close>.
\<close>

lemma init_sets_query_engine:
  "init api_key on_disk = Inr st \<Longrightarrow> query_engine st = Some ()"
  by (auto simp add: init_def setup_vector_store_def setup_query_engine_def split: if_splits)

lemma index_website_sets_query_engine:
  "query_engine (snd (index_website w st base_url_arg)) = Some ()"
  by (simp add: index_website_def index_urls_def setup_vector_store_def setup_query_engine_def
        split: sum.splits prod.splits)

lemma query_guard:
  "query_engine st = None \<Longrightarrow>
     query w st question =
       failure ''RAG system not initialized. Please index content first.''"
  by (simp add: query_def)

lemma query_engine_set:
  assumes "query_engine st = Some engine"
  shows "query w st question =
     (case engine_query w (stored_nodes st) question of
        Inl msg \<Rightarrow> failure (''Error processing query: '' @ msg)
      | Inr resp \<Rightarrow>
          (case extract_sources (case source_nodes resp of None \<Rightarrow> [] | Some ns \<Rightarrow> ns) of
             Inl msg \<Rightarrow> failure (''Error processing query: '' @ msg)
           | Inr sources \<Rightarrow>
               [(''success'', PBool True),
                (''response'', PStr (response_str resp)),
                (''sources'', PSources (sort_by_score_desc (unique_sources [] sources))),
                (''question'', PStr question)]))"
  using assms by (simp add: query_def)

lemma query_engine_set_other:
  assumes "query_engine st = Some engine"
  shows "query w st question \<noteq>
           failure ''RAG system not initialized. Please index content first.''"
  using assms
  by (simp add: query_engine_set [OF assms] failure_def split: sum.splits)

text \<open>
  C2, as amended. \<open>query\<close> returns the "not initialized" failure (success false, that
  message, an empty response text, no sources) exactly when the query engine of the
  service is not set. That is the case of no constructed service, also one that has
  indexed nothing: for every question, \<open>query\<close> on a service that \<open>__init__\<close> returned asks
  the engine. When the engine answers and the citations are built, the result has success
  true and the text of the answer; when the engine raises, or a citation cannot be built,
  the result is the reported failure with the message "Error processing query: " and the
  text of the exception, an empty response text and no sources. \<open>query\<close> is total: no
  exception leaves it.
\<close>

theorem query_on_constructed_service:
  "(query w s question =
       [(''success'', PBool False),
        (''message'', PStr ''RAG system not initialized. Please index content first.''),
        (''response'', PStr ''''),
        (''sources'', PSources [])]
     \<longleftrightarrow> query_engine s = None)
   \<and> (init api_key on_disk = Inr st \<longrightarrow>
        query_engine st \<noteq> None
        \<and> (\<forall>resp cited.
              engine_query w (stored_nodes st) question = Inr resp
              \<and> extract_sources (case source_nodes resp of None \<Rightarrow> [] | Some ns \<Rightarrow> ns)
                  = Inr cited
              \<longrightarrow> query w st question =
                    [(''success'', PBool True),
                     (''response'', PStr (response_str resp)),
                     (''sources'', PSources (sort_by_score_desc (unique_sources [] cited))),
                     (''question'', PStr question)])
        \<and> (\<forall>msg.
              engine_query w (stored_nodes st) question = Inl msg
              \<or> (\<exists>resp. engine_query w (stored_nodes st) question = Inr resp
                    \<and> extract_sources (case source_nodes resp of None \<Rightarrow> [] | Some ns \<Rightarrow> ns)
                        = Inl msg)
              \<longrightarrow> query w st question =
                    [(''success'', PBool False),
                     (''message'', PStr (''Error processing query: '' @ msg)),
                     (''response'', PStr ''''),
                     (''sources'', PSources [])]))"
proof -
  have guard: "query w s question =
       [(''success'', PBool False),
        (''message'', PStr ''RAG system not initialized. Please index content first.''),
        (''response'', PStr ''''),
        (''sources'', PSources [])]
     \<longleftrightarrow> query_engine s = None"
  proof (cases "query_engine s")
    case None
    then show ?thesis using query_guard [of s w question] by (simp add: failure_def)
  next
    case (Some engine)
    then show ?thesis using query_engine_set_other [of s engine w question]
      by (simp add: failure_def)
  qed
  have built: "query_engine st \<noteq> None
        \<and> (\<forall>resp cited.
              engine_query w (stored_nodes st) question = Inr resp
              \<and> extract_sources (case source_nodes resp of None \<Rightarrow> [] | Some ns \<Rightarrow> ns)
                  = Inr cited
              \<longrightarrow> query w st question =
                    [(''success'', PBool True),
                     (''response'', PStr (response_str resp)),
                     (''sources'', PSources (sort_by_score_desc (unique_sources [] cited))),
                     (''question'', PStr question)])
        \<and> (\<forall>msg.
              engine_query w (stored_nodes st) question = Inl msg
              \<or> (\<exists>resp. engine_query w (stored_nodes st) question = Inr resp
                    \<and> extract_sources (case source_nodes resp of None \<Rightarrow> [] | Some ns \<Rightarrow> ns)
                        = Inl msg)
              \<longrightarrow> query w st question =
                    [(''success'', PBool False),
                     (''message'', PStr (''Error processing query: '' @ msg)),
                     (''response'', PStr ''''),
                     (''sources'', PSources [])])"
    if i: "init api_key on_disk = Inr st"
  proof -
    have e: "query_engine st = Some ()"
      using i by (rule init_sets_query_engine)
    show ?thesis
      using e by (auto simp add: query_engine_set [OF e] failure_def)
  qed
  from guard built show ?thesis by blast
qed

text \<open>
  C2 as the specification states it fails on a service that has just been built, with
  no collection on disk and nothing indexed: its engine is set, the question goes to the
  engine over the empty index, and the result has success true.
\<close>

theorem query_before_indexing_succeeds:
  "init (Some ''key'') None = Inr (setup_vector_store fresh)
   \<and> stored_nodes (setup_vector_store fresh) = []
   \<and> query world_empty (setup_vector_store fresh) ''what is this?'' =
       [(''success'', PBool True),
        (''response'', PStr ''Empty Response''),
        (''sources'', PSources []),
        (''question'', PStr ''what is this?'')]"
  by (simp add: init_def fresh_def setup_vector_store_def setup_query_engine_def
        stored_nodes_def query_def world_empty_def answer_empty_def sort_by_score_desc_def
        list_sort_def)

theorem query_on_constructed_service_witness:
  "init (Some ''key'') None = Inr (setup_vector_store fresh)
   \<and> engine_query world_empty (stored_nodes (setup_vector_store fresh)) ''what is this?''
       = Inr \<lparr>response_str = ''Empty Response'', source_nodes = Some []\<rparr>
   \<and> extract_sources [] = Inr []
   \<and> query world_empty (setup_vector_store fresh) ''what is this?'' =
       [(''success'', PBool True),
        (''response'', PStr ''Empty Response''),
        (''sources'', PSources []),
        (''question'', PStr ''what is this?'')]
   \<and> engine_query world_three (stored_nodes (setup_vector_store fresh)) ''what is this?''
       = Inl ''no engine''
   \<and> query world_three (setup_vector_store fresh) ''what is this?'' =
       [(''success'', PBool False),
        (''message'', PStr ''Error processing query: no engine''),
        (''response'', PStr ''''),
        (''sources'', PSources [])]
   \<and> query_engine fresh = None
   \<and> query world_three fresh ''what is this?'' =
       [(''success'', PBool False),
        (''message'', PStr ''RAG system not initialized. Please index content first.''),
        (''response'', PStr ''''),
        (''sources'', PSources [])]"
proof -
  have i: "init (Some ''key'') None = Inr (setup_vector_store fresh)"
    by (simp add: init_def fresh_def)
  have a: "engine_query world_three (stored_nodes (setup_vector_store fresh)) ''what is this?''
       = Inl ''no engine''"
    by (simp add: world_three_def no_answer_def)
  have b: "engine_query world_empty (stored_nodes (setup_vector_store fresh)) ''what is this?''
       = Inr \<lparr>response_str = ''Empty Response'', source_nodes = Some []\<rparr>"
    by (simp add: world_empty_def answer_empty_def)
  have c: "extract_sources [] = Inr []"
    by simp
  have g: "query_engine fresh = None"
    by (simp add: fresh_def)
  have s: "sort_by_score_desc (unique_sources [] []) = []"
    by (simp add: sort_by_score_desc_def list_sort_def)
  have p: "query world_empty (setup_vector_store fresh) ''what is this?'' =
       [(''success'', PBool True),
        (''response'', PStr ''Empty Response''),
        (''sources'', PSources []),
        (''question'', PStr ''what is this?'')]"
    using query_on_constructed_service [of world_empty _ "''what is this?''"
        "Some ''key''" None "setup_vector_store fresh"] i b c s
    by simp
  have q: "query world_three (setup_vector_store fresh) ''what is this?'' =
       [(''success'', PBool False),
        (''message'', PStr ''Error processing query: no engine''),
        (''response'', PStr ''''),
        (''sources'', PSources [])]"
    using query_on_constructed_service [of world_three _ "''what is this?''"
        "Some ''key''" None "setup_vector_store fresh"] i a
    by simp
  have n: "query world_three fresh ''what is this?'' =
       [(''success'', PBool False),
        (''message'', PStr ''RAG system not initialized. Please index content first.''),
        (''response'', PStr ''''),
        (''sources'', PSources [])]"
    using query_on_constructed_service [of world_three fresh "''what is this?''"] g
    by simp
  from i a b c p q g n show ?thesis by blast
qed

lemma urls_to_index_all_homepages:
  "list_all (\<lambda>u. is_homepage_url chk u base_url = Inr True) urls
     \<Longrightarrow> urls_to_index chk base_url urls = Inr []"
  by (induction urls) simp_all

lemma urls_to_index_filter:
  "urls_to_index chk base_url urls = Inr todo
     \<Longrightarrow> todo = filter (\<lambda>u. is_homepage_url chk u base_url = Inr False) urls"
proof (induction urls arbitrary: todo)
  case Nil
  then show ?case by simp
next
  case (Cons u us)
  then show ?case
    by (auto split: sum.splits if_splits)
qed

lemma index_loop_result:
  "index_loop w us (n, failed, stored) =
     (n + length (filter (\<lambda>u. index_url w u \<noteq> None) us),
      failed @ filter (\<lambda>u. index_url w u = None) us,
      stored @ concat (map (\<lambda>u. case index_url w u of None \<Rightarrow> [] | Some ns \<Rightarrow> ns) us))"
  by (induction us arbitrary: n failed stored) (auto split: option.splits)

lemma index_urls_success:
  assumes "urls_to_index (bracketed_host_ok w) base_url urls = Inr todo" and "todo \<noteq> []"
  shows "fst (index_urls w st base_url urls) =
     Inr [(''success'', PBool True),
          (''message'',
             PStr (''Indexed '' @ str_nat (length (filter (\<lambda>u. index_url w u \<noteq> None) todo))
                   @ '' out of '' @ str_nat (length todo)
                   @ '' URLs (homepage variations excluded)'')),
          (''indexed_count'', PInt (int (length (filter (\<lambda>u. index_url w u \<noteq> None) todo)))),
          (''total_urls'', PInt (int (length todo))),
          (''failed_urls'', PList (filter (\<lambda>u. index_url w u = None) todo))]"
  using assms by (simp add: index_urls_def index_loop_result)

lemma index_urls_none:
  assumes "urls_to_index (bracketed_host_ok w) base_url urls = Inr []"
  shows "index_urls w st base_url urls =
     (Inr [(''success'', PBool False),
          (''message'', PStr ''No URLs to index after excluding homepage''),
          (''indexed_count'', PInt 0)], st)"
  using assms by (simp add: index_urls_def)

text \<open>
  C6. For every base URL, when every discovered URL is classified as a homepage variant,
  \<open>index_website\<close> returns the dictionary with success false, \<open>indexed_count\<close> 0 and the
  message "No URLs to index after excluding homepage", and raises nothing.
\<close>

theorem index_website_no_urls:
  assumes "list_all (\<lambda>u. is_homepage_url (bracketed_host_ok w) u
                            (case base_url_arg of None \<Rightarrow> BASE_URL | Some b \<Rightarrow> b) = Inr True)
             (discover_urls (bracketed_host_ok w) (http_get w)
                (case base_url_arg of None \<Rightarrow> BASE_URL | Some b \<Rightarrow> b) MAX_DEPTH)"
  shows "fst (index_website w st base_url_arg) =
     Inr [(''success'', PBool False),
          (''message'', PStr ''No URLs to index after excluding homepage''),
          (''indexed_count'', PInt 0)]"
  using urls_to_index_all_homepages [OF assms]
  by (simp add: index_website_def index_urls_none)

theorem index_website_no_urls_witness:
  "discover_urls (bracketed_host_ok world_home) (http_get world_home) ''http://x'' MAX_DEPTH
     = [''http://x/index.html'', ''http://x'']
   \<and> list_all (\<lambda>u. is_homepage_url (bracketed_host_ok world_home) u ''http://x'' = Inr True)
        [''http://x/index.html'', ''http://x'']
   \<and> fst (index_website world_home fresh (Some ''http://x'')) =
        Inr [(''success'', PBool False),
             (''message'', PStr ''No URLs to index after excluding homepage''),
             (''indexed_count'', PInt 0)]"
proof -
  have d: "discover_urls (bracketed_host_ok world_home) (http_get world_home) ''http://x''
             MAX_DEPTH = [''http://x/index.html'', ''http://x'']"
    by (simp add: world_home_def world_three_def discover_site_home)
  have h: "list_all (\<lambda>u. is_homepage_url (bracketed_host_ok world_home) u ''http://x'' = Inr True)
             [''http://x/index.html'', ''http://x'']"
    by (simp add: homepage_table)
  from index_website_no_urls [of world_home "Some ''http://x''" fresh] d h
  show ?thesis by simp
qed

lemma index_url_fails:
  "load_data w u = Inl e \<Longrightarrow> index_url w u = None"
  "load_data w u = Inr [] \<Longrightarrow> index_url w u = None"
  by (simp_all add: index_url_def)

text \<open>
  C4. When the list of non-homepage URLs is not empty, \<open>index_website\<close> returns success
  true, \<open>indexed_count\<close> the number of URLs whose \<open>try\<close> block ran to its end, \<open>total_urls\<close>
  the number of URLs attempted, and \<open>failed_urls\<close> exactly the URLs that failed, in the order
  of the attempts: a failing URL is recorded and the loop goes on with the next one. A URL
  fails in particular when the reader raises or returns no document.
\<close>

theorem index_website_counts:
  assumes "urls_to_index (bracketed_host_ok w)
             (case base_url_arg of None \<Rightarrow> BASE_URL | Some b \<Rightarrow> b)
             (discover_urls (bracketed_host_ok w) (http_get w)
                (case base_url_arg of None \<Rightarrow> BASE_URL | Some b \<Rightarrow> b) MAX_DEPTH) = Inr todo"
    and "todo \<noteq> []"
  shows "fst (index_website w st base_url_arg) =
           Inr [(''success'', PBool True),
                (''message'',
                   PStr (''Indexed ''
                         @ str_nat (length (filter (\<lambda>u. index_url w u \<noteq> None) todo))
                         @ '' out of '' @ str_nat (length todo)
                         @ '' URLs (homepage variations excluded)'')),
                (''indexed_count'',
                   PInt (int (length (filter (\<lambda>u. index_url w u \<noteq> None) todo)))),
                (''total_urls'', PInt (int (length todo))),
                (''failed_urls'', PList (filter (\<lambda>u. index_url w u = None) todo))]
         \<and> (\<forall>u \<in> set todo.
               (\<exists>e. load_data w u = Inl e) \<or> load_data w u = Inr [] \<longrightarrow> index_url w u = None)"
  using index_urls_success [OF assms] index_url_fails
  by (auto simp add: index_website_def)

lemma index_url_three:
  "index_url world_three ''http://x/p1'' =
     Some [\<lparr>node_text = ''text of http://x/p1'',
            node_metadata = [(''source_url'', ''http://x/p1''), (''source_type'', ''web_page'')]\<rparr>]"
  "index_url world_three ''http://x/p2'' = None"
  "index_url world_three ''http://x/p3'' =
     Some [\<lparr>node_text = ''text of http://x/p3'',
            node_metadata = [(''source_url'', ''http://x/p3''), (''source_type'', ''web_page'')]\<rparr>]"
  by (simp_all add: index_url_def world_three_def reader_three_def one_node_def add_source_def
        dict_update_def)

lemma todo_three:
  "urls_to_index (bracketed_host_ok world_three) ''http://x''
     (discover_urls (bracketed_host_ok world_three) (http_get world_three) ''http://x'' MAX_DEPTH)
     = Inr [''http://x/p3'', ''http://x/p2'', ''http://x/p1'']"
  by (simp add: world_three_def discover_site_three homepage_table)

theorem index_website_counts_witness:
  "urls_to_index (bracketed_host_ok world_three) ''http://x''
     (discover_urls (bracketed_host_ok world_three) (http_get world_three) ''http://x'' MAX_DEPTH)
     = Inr [''http://x/p3'', ''http://x/p2'', ''http://x/p1'']
   \<and> load_data world_three ''http://x/p2'' = Inl OtherError
   \<and> fst (index_website world_three fresh (Some ''http://x'')) =
        Inr [(''success'', PBool True),
             (''message'', PStr ''Indexed 2 out of 3 URLs (homepage variations excluded)''),
             (''indexed_count'', PInt 2),
             (''total_urls'', PInt 3),
             (''failed_urls'', PList [''http://x/p2''])]"
proof -
  have l: "load_data world_three ''http://x/p2'' = Inl OtherError"
    by (simp add: world_three_def reader_three_def)
  have n: "str_nat (Suc (Suc 0)) = ''2''" "str_nat (Suc (Suc (Suc 0))) = ''3''"
    by (simp_all add: str_nat.simps)
  from index_website_counts [of world_three "Some ''http://x''"
      "[''http://x/p3'', ''http://x/p2'', ''http://x/p1'']" fresh] todo_three l n
  show ?thesis by (simp add: index_url_three)
qed

text \<open>
  C9. Whenever \<open>index_website\<close> returns with success true, \<open>indexed_count\<close> plus the length
  of \<open>failed_urls\<close> is \<open>total_urls\<close>, and every URL of \<open>failed_urls\<close> is one of the discovered URLs
  that are not homepage variants, the ones attempted.
\<close>

theorem index_website_success_invariant:
  assumes "fst (index_website w st base_url_arg) = Inr d"
    and "map_of d ''success'' = Some (PBool True)"
  shows "\<exists>n failed.
           map_of d ''indexed_count'' = Some (PInt n)
           \<and> map_of d ''failed_urls'' = Some (PList failed)
           \<and> map_of d ''total_urls'' = Some (PInt (n + int (length failed)))
           \<and> set failed \<subseteq>
               {u \<in> set (discover_urls (bracketed_host_ok w) (http_get w)
                            (case base_url_arg of None \<Rightarrow> BASE_URL | Some b \<Rightarrow> b) MAX_DEPTH).
                  is_homepage_url (bracketed_host_ok w) u
                    (case base_url_arg of None \<Rightarrow> BASE_URL | Some b \<Rightarrow> b) = Inr False}"
proof -
  let ?b = "case base_url_arg of None \<Rightarrow> BASE_URL | Some b \<Rightarrow> b"
  let ?urls = "discover_urls (bracketed_host_ok w) (http_get w) ?b MAX_DEPTH"
  from assms(1) obtain todo where t: "urls_to_index (bracketed_host_ok w) ?b ?urls = Inr todo"
    by (cases "urls_to_index (bracketed_host_ok w) ?b ?urls")
       (auto simp add: index_website_def index_urls_def)
  have ne: "todo \<noteq> []"
  proof
    assume "todo = []"
    with t assms show False
      by (auto simp add: index_website_def index_urls_none)
  qed
  let ?ok = "filter (\<lambda>u. index_url w u \<noteq> None) todo"
  let ?failed = "filter (\<lambda>u. index_url w u = None) todo"
  have d: "d = [(''success'', PBool True),
                (''message'',
                   PStr (''Indexed '' @ str_nat (length ?ok) @ '' out of ''
                         @ str_nat (length todo) @ '' URLs (homepage variations excluded)'')),
                (''indexed_count'', PInt (int (length ?ok))),
                (''total_urls'', PInt (int (length todo))),
                (''failed_urls'', PList ?failed)]"
    using index_urls_success [OF t ne, of "setup_vector_store (clear_collection st)"] assms(1)
    by (simp add: index_website_def)
  have len: "length ?ok + length ?failed = length todo"
    using sum_length_filter_compl [of "\<lambda>u. index_url w u \<noteq> None" todo] by simp
  have sub: "set ?failed \<subseteq> {u \<in> set ?urls. is_homepage_url (bracketed_host_ok w) u ?b = Inr False}"
    using urls_to_index_filter [OF t] by auto
  have "map_of d ''indexed_count'' = Some (PInt (int (length ?ok)))"
    and "map_of d ''failed_urls'' = Some (PList ?failed)"
    and "map_of d ''total_urls'' = Some (PInt (int (length ?ok) + int (length ?failed)))"
    using len by (simp_all add: d)
  with sub show ?thesis by blast
qed

theorem index_website_success_invariant_witness:
  "fst (index_website world_three fresh (Some ''http://x'')) =
        Inr [(''success'', PBool True),
             (''message'', PStr ''Indexed 2 out of 3 URLs (homepage variations excluded)''),
             (''indexed_count'', PInt 2),
             (''total_urls'', PInt 3),
             (''failed_urls'', PList [''http://x/p2''])]
   \<and> (2::int) + int (length [''http://x/p2'']) = 3
   \<and> is_homepage_url (bracketed_host_ok world_three) ''http://x/p2'' ''http://x'' = Inr False"
proof -
  let ?d = "[(''success'', PBool True),
             (''message'', PStr ''Indexed 2 out of 3 URLs (homepage variations excluded)''),
             (''indexed_count'', PInt 2),
             (''total_urls'', PInt 3),
             (''failed_urls'', PList [''http://x/p2''])]"
  have n: "str_nat (Suc (Suc 0)) = ''2''" "str_nat (Suc (Suc (Suc 0))) = ''3''"
    by (simp_all add: str_nat.simps)
  have r: "fst (index_website world_three fresh (Some ''http://x'')) = Inr ?d"
    using todo_three
    by (simp add: index_website_def index_urls_def index_loop_result index_url_three n)
  have s: "map_of ?d ''success'' = Some (PBool True)" by simp
  from index_website_success_invariant [OF r s]
  show ?thesis using r by auto
qed

section \<open>The crawl\<close>

lemma crawl_invariant:
  assumes "P st"
    and "\<And>s e rest. P s \<Longrightarrow> to_visit s = e # rest
           \<Longrightarrow> P (visit chk web base_url max_depth (fst e) (snd e) (s\<lparr>to_visit := rest\<rparr>))"
  shows "P (crawl chk web base_url max_depth st)"
  using assms
proof (induction chk web base_url max_depth st rule: crawl.induct)
  case (1 chk web base_url max_depth st)
  show ?case
  proof (cases "to_visit st")
    case Nil
    then show ?thesis using "1.prems"(1) by (simp add: crawl.simps)
  next
    case (Cons e rest)
    let ?next = "visit chk web base_url max_depth (fst e) (snd e) (st\<lparr>to_visit := rest\<rparr>)"
    have "P ?next" by (rule "1.prems"(2) [OF "1.prems"(1) Cons])
    then have "P (crawl chk web base_url max_depth ?next)"
      using "1.IH" [OF Cons] "1.prems"(2) by blast
    moreover have "crawl chk web base_url max_depth st = crawl chk web base_url max_depth ?next"
      by (subst crawl.simps) (simp add: Cons)
    ultimately show ?thesis by simp
  qed
qed

lemma follow_links_netloc:
  "u \<in> set (fst (follow_links chk base_url url vis hrefs))
     \<Longrightarrow> netloc_of chk u \<noteq> None \<and> netloc_of chk u = netloc_of chk base_url \<and> u \<notin> set vis"
proof (induction hrefs)
  case Nil
  then show ?case by simp
next
  case (Cons h hs)
  then show ?case
    by (auto simp add: netloc_of_def split: sum.splits prod.splits if_splits)
qed

lemma page_links_subset:
  "set (page_links chk base_url url vis sp)
     \<subseteq> set (fst (follow_links chk base_url url vis (a_hrefs sp)))
        \<union> set (fst (follow_links chk base_url url vis (concat (map findall_nav (onclicks sp)))))"
  by (cases "follow_links chk base_url url vis (a_hrefs sp)") (auto simp add: page_links_def)

lemma page_links_netloc:
  assumes "u \<in> set (page_links chk base_url url vis sp)"
  shows "netloc_of chk u \<noteq> None \<and> netloc_of chk u = netloc_of chk base_url \<and> u \<notin> set vis"
proof -
  from assms page_links_subset [of chk base_url url vis sp]
  have "u \<in> set (fst (follow_links chk base_url url vis (a_hrefs sp)))
        \<or> u \<in> set (fst (follow_links chk base_url url vis
                              (concat (map findall_nav (onclicks sp)))))"
    by blast
  then show ?thesis
    using follow_links_netloc by blast
qed

lemma fetch_fields:
  "visited (fetch chk web base_url max_depth url depth st) = visited st"
  "requested (fetch chk web base_url max_depth url depth st) = requested st"
  "set (discovered_urls (fetch chk web base_url max_depth url depth st))
     \<subseteq> insert url (set (discovered_urls st))"
  "set (to_visit (fetch chk web base_url max_depth url depth st))
     \<subseteq> set (to_visit st)
        \<union> (\<lambda>u. (u, depth + 1)) ` set (case web url of
             Response code (Some sp) \<Rightarrow> page_links chk base_url url (visited st) sp
           | _ \<Rightarrow> [])"
  by (auto simp add: fetch_def split: http_result.splits option.splits)


lemma visit_same_netloc:
  fixes web :: "string \<Rightarrow> http_result" and max_depth :: int
  assumes inv: "(\<forall>e \<in> set (to_visit s). fst e = base_url \<or>
                   (netloc_of chk (fst e) \<noteq> None \<and> netloc_of chk (fst e) = netloc_of chk base_url))
              \<and> (\<forall>u \<in> set (discovered_urls s). u = base_url \<or>
                   (netloc_of chk u \<noteq> None \<and> netloc_of chk u = netloc_of chk base_url))
              \<and> (\<forall>e \<in> set (requested s). fst e = base_url \<or>
                   (netloc_of chk (fst e) \<noteq> None \<and> netloc_of chk (fst e) = netloc_of chk base_url))"
    and q: "to_visit s = e # rest"
  defines "s' \<equiv> visit chk web base_url max_depth (fst e) (snd e) (s\<lparr>to_visit := rest\<rparr>)"
  shows "(\<forall>e \<in> set (to_visit s'). fst e = base_url \<or>
                   (netloc_of chk (fst e) \<noteq> None \<and> netloc_of chk (fst e) = netloc_of chk base_url))
              \<and> (\<forall>u \<in> set (discovered_urls s'). u = base_url \<or>
                   (netloc_of chk u \<noteq> None \<and> netloc_of chk u = netloc_of chk base_url))
              \<and> (\<forall>e \<in> set (requested s'). fst e = base_url \<or>
                   (netloc_of chk (fst e) \<noteq> None \<and> netloc_of chk (fst e) = netloc_of chk base_url))"
proof (cases "fst e \<in> set (visited s) \<or> snd e > max_depth")
  case True
  then have "s' = s\<lparr>to_visit := rest\<rparr>" by (auto simp add: s'_def visit_def)
  then show ?thesis using inv q by simp
next
  case False
  let ?ok = "\<lambda>u. u = base_url \<or>
               (netloc_of chk u \<noteq> None \<and> netloc_of chk u = netloc_of chk base_url)"
  let ?s1 = "s\<lparr>to_visit := rest, visited := fst e # visited s,
                requested := requested s @ [(fst e, snd e)]\<rparr>"
  have s': "s' = fetch chk web base_url max_depth (fst e) (snd e) ?s1"
    using False by (simp add: s'_def visit_def)
  have e: "?ok (fst e)" using inv q by simp
  have tv: "\<forall>x \<in> set (to_visit s'). ?ok (fst x)"
  proof
    fix x assume "x \<in> set (to_visit s')"
    then have "x \<in> set rest \<or>
               x \<in> (\<lambda>u. (u, snd e + 1)) ` set (case web (fst e) of
                       Response code (Some sp) \<Rightarrow>
                         page_links chk base_url (fst e) (visited ?s1) sp
                     | _ \<Rightarrow> [])"
      using fetch_fields(4) [of chk web base_url max_depth "fst e" "snd e" ?s1]
      unfolding s' by auto
    then show "?ok (fst x)"
    proof
      assume "x \<in> set rest"
      then show ?thesis using inv q by simp
    next
      assume "x \<in> (\<lambda>u. (u, snd e + 1)) ` set (case web (fst e) of
                       Response code (Some sp) \<Rightarrow>
                         page_links chk base_url (fst e) (visited ?s1) sp
                     | _ \<Rightarrow> [])"
      then obtain sp where "fst x \<in> set (page_links chk base_url (fst e) (visited ?s1) sp)"
        by (auto split: http_result.splits option.splits)
      then show ?thesis using page_links_netloc by blast
    qed
  qed
  have du: "\<forall>u \<in> set (discovered_urls s'). ?ok u"
    using fetch_fields(3) [of chk web base_url max_depth "fst e" "snd e" ?s1] inv e
    unfolding s' by auto
  have rq: "\<forall>x \<in> set (requested s'). ?ok (fst x)"
    using inv e unfolding s' by (auto simp add: fetch_fields(2))
  from tv du rq show ?thesis by blast
qed

text \<open>
  C1, as the code has it. Every URL that \<open>discover_urls\<close> returns, and every URL it
  requests, is the seed itself or has the network location (\<open>netloc\<close>) of the seed: a link
  whose network location differs from the seed's is never enqueued. The scheme is not
  compared.
\<close>

theorem discover_urls_same_netloc:
  "(\<forall>u \<in> set (discover_urls chk web base_url max_depth).
      u = base_url \<or> (netloc_of chk u \<noteq> None \<and> netloc_of chk u = netloc_of chk base_url))
   \<and> (\<forall>e \<in> set (crawl_log chk web base_url max_depth).
      fst e = base_url
      \<or> (netloc_of chk (fst e) \<noteq> None \<and> netloc_of chk (fst e) = netloc_of chk base_url))"
proof -
  let ?P = "\<lambda>s :: crawl_state. (\<forall>e \<in> set (to_visit s). fst e = base_url \<or>
                   (netloc_of chk (fst e) \<noteq> None \<and> netloc_of chk (fst e) = netloc_of chk base_url))
              \<and> (\<forall>u \<in> set (discovered_urls s). u = base_url \<or>
                   (netloc_of chk u \<noteq> None \<and> netloc_of chk u = netloc_of chk base_url))
              \<and> (\<forall>e \<in> set (requested s). fst e = base_url \<or>
                   (netloc_of chk (fst e) \<noteq> None \<and> netloc_of chk (fst e) = netloc_of chk base_url))"
  have "?P (crawl chk web base_url max_depth (start base_url))"
  proof (rule crawl_invariant)
    show "?P (start base_url)" by (simp add: start_def)
  next
    fix s e rest
    assume "?P s" and "to_visit s = e # rest"
    then show "?P (visit chk web base_url max_depth (fst e) (snd e) (s\<lparr>to_visit := rest\<rparr>))"
      by (rule visit_same_netloc)
  qed
  then show ?thesis by (simp add: discover_urls_def crawl_log_def)
qed

text \<open>
  C1 as it is written fails: on the example site the home page \<open>http://x/\<close> links to
  \<open>https://x/a\<close>, same network location, other scheme, and that URL is returned.
\<close>

theorem discover_urls_other_scheme:
  "''https://x/a'' \<in> set (discover_urls any_host site_x ''http://x/'' 1)
   \<and> scheme_of any_host ''https://x/a'' = Some ''https''
   \<and> scheme_of any_host ''http://x/'' = Some ''http''"
  by (simp add: discover_urls_def crawl_site_x scheme_of_def parse_table)

theorem discover_urls_same_netloc_witness:
  "''https://x/a'' \<in> set (discover_urls any_host site_x ''http://x/'' 1)
   \<and> (''http://x/b'', 1) \<in> set (crawl_log any_host site_x ''http://x/'' 1)
   \<and> netloc_of any_host ''https://x/a'' = netloc_of any_host ''http://x/''
   \<and> netloc_of any_host ''http://x/b'' = netloc_of any_host ''http://x/''
   \<and> netloc_of any_host ''http://x/'' = Some ''x''"
proof -
  have d: "''https://x/a'' \<in> set (discover_urls any_host site_x ''http://x/'' 1)"
    by (simp add: discover_urls_def crawl_site_x)
  have r: "(''http://x/b'', 1) \<in> set (crawl_log any_host site_x ''http://x/'' 1)"
    by (simp add: crawl_log_def crawl_site_x)
  have n: "netloc_of any_host ''http://x/'' = Some ''x''"
    by (simp add: netloc_of_def parse_table)
  from discover_urls_same_netloc [of any_host site_x "''http://x/''" 1] d r
  have "netloc_of any_host ''https://x/a'' = netloc_of any_host ''http://x/''
        \<and> netloc_of any_host ''http://x/b'' = netloc_of any_host ''http://x/''"
    by fastforce
  with d r n show ?thesis by simp
qed

lemma visit_once:
  fixes web :: "string \<Rightarrow> http_result" and chk :: "string \<Rightarrow> bool"
    and base_url url :: string and depth :: int and rest :: "(string \<times> int) list"
  assumes inv: "distinct (visited s) \<and> map fst (requested s) = rev (visited s)
                \<and> (\<forall>e \<in> set (requested s). snd e \<le> max_depth)"
  defines "s' \<equiv> visit chk web base_url max_depth url depth (s\<lparr>to_visit := rest\<rparr>)"
  shows "distinct (visited s') \<and> map fst (requested s') = rev (visited s')
                \<and> (\<forall>e \<in> set (requested s'). snd e \<le> max_depth)"
  using inv by (auto simp add: s'_def visit_def fetch_fields)

text \<open>
  C3. In every run of \<open>discover_urls\<close> no URL is requested more than once, the visited
  list holds each URL once, in the order of the requests, and no URL is requested at a
  depth greater than \<open>max_depth\<close>.
\<close>

theorem crawl_requests_once:
  "distinct (map fst (crawl_log chk web base_url max_depth))
   \<and> (\<forall>e \<in> set (crawl_log chk web base_url max_depth). snd e \<le> max_depth)
   \<and> distinct (visited (crawl chk web base_url max_depth (start base_url)))
   \<and> map fst (crawl_log chk web base_url max_depth)
       = rev (visited (crawl chk web base_url max_depth (start base_url)))"
proof -
  let ?P = "\<lambda>s :: crawl_state. distinct (visited s) \<and> map fst (requested s) = rev (visited s)
                \<and> (\<forall>e \<in> set (requested s). snd e \<le> max_depth)"
  have "?P (crawl chk web base_url max_depth (start base_url))"
  proof (rule crawl_invariant)
    show "?P (start base_url)" by (simp add: start_def)
  next
    fix s e rest
    assume "?P s" and "to_visit s = e # rest"
    then show "?P (visit chk web base_url max_depth (fst e) (snd e) (s\<lparr>to_visit := rest\<rparr>))"
      using visit_once [of s max_depth chk web base_url "fst e" "snd e" rest] by blast
  qed
  then show ?thesis by (simp add: crawl_log_def)
qed

theorem crawl_requests_once_witness:
  "crawl_log any_host site_x ''http://x/'' 1
     = [(''http://x/'', 0), (''https://x/a'', 1), (''http://x/b'', 1)]
   \<and> distinct (map fst (crawl_log any_host site_x ''http://x/'' 1))
   \<and> list_all (\<lambda>e. snd e \<le> 1) (crawl_log any_host site_x ''http://x/'' 1)"
proof -
  have l: "crawl_log any_host site_x ''http://x/'' 1
             = [(''http://x/'', 0), (''https://x/a'', 1), (''http://x/b'', 1)]"
    by (simp add: crawl_log_def crawl_site_x)
  from crawl_requests_once [of any_host site_x "''http://x/''" 1] l
  show ?thesis by simp
qed

section \<open>Source citations\<close>

lemma unique_sources_urls:
  "src_url ` set (unique_sources seen ss) = src_url ` set ss - set seen"
  by (induction ss arbitrary: seen) auto

lemma unique_sources_distinct:
  "distinct (map src_url (unique_sources seen ss))"
proof (induction ss arbitrary: seen)
  case Nil
  show ?case by simp
next
  case (Cons s ss)
  have "src_url s \<notin> src_url ` set (unique_sources (src_url s # seen) ss)"
    by (simp add: unique_sources_urls)
  with Cons show ?case by simp
qed

lemma unique_sources_first:
  "s \<in> set (unique_sources seen ss) \<Longrightarrow> find (\<lambda>t. src_url t = src_url s) ss = Some s"
proof (induction ss arbitrary: seen)
  case Nil
  then show ?case by simp
next
  case (Cons t ss)
  show ?case
  proof (cases "src_url t = src_url s")
    case True
    have "s \<notin> set (unique_sources (src_url t # seen) ss)"
      using unique_sources_urls [of "src_url t # seen" ss] True by auto
    moreover have "s \<notin> set (unique_sources seen ss)" if "src_url t \<in> set seen"
      using unique_sources_urls [of seen ss] True that by auto
    ultimately have "s = t" using Cons.prems by (auto split: if_splits)
    then show ?thesis by simp
  next
    case False
    then have "s \<in> set (unique_sources seen ss) \<or> s \<in> set (unique_sources (src_url t # seen) ss)"
      using Cons.prems by (auto split: if_splits)
    then have "find (\<lambda>t. src_url t = src_url s) ss = Some s"
      using Cons.IH by blast
    with False show ?thesis by simp
  qed
qed

lemma take_run_append: "take_run goes_on prev xs = (run, others) \<Longrightarrow> run @ others = xs"
  by (induction xs arbitrary: prev run others) (auto split: if_splits prod.splits)

lemma count_run_mset: "count_run lt xs = (run, others) \<Longrightarrow> mset run + mset others = mset xs"
  by (auto simp add: count_run_def split: list.splits if_splits prod.splits
        dest!: take_run_append)

lemma insert_at_mset: "mset (insert_at i x xs) = add_mset x (mset xs)"
proof -
  have "mset (take i xs) + mset (drop i xs) = mset xs"
    by (metis append_take_drop_id mset_append)
  then show ?thesis by (simp add: insert_at_def)
qed

lemma binarysort_mset: "mset (binarysort lt front others) = mset front + mset others"
  by (induction others arbitrary: front) (simp_all add: insert_at_mset)

lemma list_sort_mset: "mset (list_sort lt xs) = mset xs"
  by (auto simp add: list_sort_def binarysort_mset split: prod.splits dest: count_run_mset)

lemma take_run_ascending:
  assumes ntrans: "\<And>a b c. a \<in> A \<Longrightarrow> b \<in> A \<Longrightarrow> c \<in> A
                     \<Longrightarrow> \<not> lt b a \<Longrightarrow> \<not> lt c b \<Longrightarrow> \<not> lt c a"
    and "set (prev # xs) \<subseteq> A"
  shows "sorted_wrt (\<lambda>a b. \<not> lt b a) (prev # fst (take_run (\<lambda>x p. \<not> lt x p) prev xs))"
  using assms(2)
proof (induction xs arbitrary: prev)
  case Nil
  then show ?case by simp
next
  case (Cons x xs)
  show ?case
  proof (cases "lt x prev")
    case True
    then show ?thesis by simp
  next
    case False
    obtain run others where t: "take_run (\<lambda>x p. \<not> lt x p) x xs = (run, others)"
      by (cases "take_run (\<lambda>x p. \<not> lt x p) x xs")
    have s: "sorted_wrt (\<lambda>a b. \<not> lt b a) (x # run)"
      using Cons.IH [of x] Cons.prems t by simp
    have sub: "set run \<subseteq> A"
      using take_run_append [OF t] Cons.prems by auto
    have "\<not> lt y prev" if "y \<in> set run" for y
    proof -
      from s that have "\<not> lt y x" by simp
      with False show ?thesis
        using ntrans [of prev x y] Cons.prems sub that by auto
    qed
    with s False t show ?thesis by auto
  qed
qed

lemma take_run_descending:
  assumes trans: "\<And>a b c. a \<in> A \<Longrightarrow> b \<in> A \<Longrightarrow> c \<in> A \<Longrightarrow> lt a b \<Longrightarrow> lt b c \<Longrightarrow> lt a c"
    and "set (prev # xs) \<subseteq> A"
  shows "sorted_wrt (\<lambda>a b. lt b a) (prev # fst (take_run lt prev xs))"
  using assms(2)
proof (induction xs arbitrary: prev)
  case Nil
  then show ?case by simp
next
  case (Cons x xs)
  show ?case
  proof (cases "lt x prev")
    case False
    then show ?thesis by simp
  next
    case True
    obtain run others where t: "take_run lt x xs = (run, others)"
      by (cases "take_run lt x xs")
    have s: "sorted_wrt (\<lambda>a b. lt b a) (x # run)"
      using Cons.IH [of x] Cons.prems t by simp
    have sub: "set run \<subseteq> A"
      using take_run_append [OF t] Cons.prems by auto
    have "lt y prev" if "y \<in> set run" for y
    proof -
      from s that have "lt y x" by simp
      with True show ?thesis
        using trans [of y x prev] Cons.prems sub that by auto
    qed
    with s True t show ?thesis by auto
  qed
qed

lemma lt_trans:
  assumes asym: "\<And>a b. a \<in> A \<Longrightarrow> b \<in> A \<Longrightarrow> lt a b \<Longrightarrow> \<not> lt b a"
    and ntrans: "\<And>a b c. a \<in> A \<Longrightarrow> b \<in> A \<Longrightarrow> c \<in> A
                     \<Longrightarrow> \<not> lt b a \<Longrightarrow> \<not> lt c b \<Longrightarrow> \<not> lt c a"
    and "a \<in> A" "b \<in> A" "c \<in> A" "lt a b" "lt b c"
  shows "lt a c"
proof (rule ccontr)
  assume "\<not> lt a c"
  moreover have "\<not> lt c b" using asym assms(4,5,7) by blast
  ultimately have "\<not> lt a b" using ntrans [of b c a] assms(3,4,5) by blast
  with assms(6) show False by simp
qed

lemma count_run_sorted:
  assumes asym: "\<And>a b. a \<in> A \<Longrightarrow> b \<in> A \<Longrightarrow> lt a b \<Longrightarrow> \<not> lt b a"
    and ntrans: "\<And>a b c. a \<in> A \<Longrightarrow> b \<in> A \<Longrightarrow> c \<in> A
                     \<Longrightarrow> \<not> lt b a \<Longrightarrow> \<not> lt c b \<Longrightarrow> \<not> lt c a"
    and sub: "set xs \<subseteq> A"
  shows "sorted_wrt (\<lambda>a b. \<not> lt b a) (fst (count_run lt xs))"
proof (cases xs)
  case Nil
  then show ?thesis by (simp add: count_run_def)
next
  case (Cons x0 ys)
  show ?thesis
  proof (cases ys)
    case Nil
    with Cons show ?thesis by (simp add: count_run_def)
  next
    case (Cons x1 zs)
    note ys = Cons
    show ?thesis
    proof (cases "lt x1 x0")
      case False
      have "sorted_wrt (\<lambda>a b. \<not> lt b a) (x0 # fst (take_run (\<lambda>x p. \<not> lt x p) x0 (x1 # zs)))"
        using take_run_ascending [of A lt x0 "x1 # zs"] ntrans sub \<open>xs = x0 # ys\<close> ys
        by blast
      then show ?thesis
        using False \<open>xs = x0 # ys\<close> ys
        by (simp add: count_run_def split: prod.splits)
    next
      case True
      have tr: "\<And>a b c. a \<in> A \<Longrightarrow> b \<in> A \<Longrightarrow> c \<in> A \<Longrightarrow> lt a b \<Longrightarrow> lt b c \<Longrightarrow> lt a c"
        using lt_trans [of A lt] asym ntrans by blast
      have d: "sorted_wrt (\<lambda>a b. lt b a) (x0 # fst (take_run lt x0 (x1 # zs)))"
        using take_run_descending [of A lt x0 "x1 # zs"] tr sub \<open>xs = x0 # ys\<close> ys
        by blast
      obtain run others where t: "take_run lt x1 zs = (run, others)"
        by (cases "take_run lt x1 zs")
      have inA: "set (x0 # x1 # run) \<subseteq> A"
        using take_run_append [OF t] sub \<open>xs = x0 # ys\<close> ys by auto
      from d True t have "sorted_wrt (\<lambda>a b. lt b a) (x0 # x1 # run)" by simp
      then have "sorted_wrt (\<lambda>a b. lt a b) (rev (x0 # x1 # run))"
        by (simp only: sorted_wrt_rev)
      then have "sorted_wrt (\<lambda>a b. \<not> lt b a) (rev (x0 # x1 # run))"
        by (rule sorted_wrt_mono_rel [rotated]) (use asym inA in auto)
      then show ?thesis
        using True t \<open>xs = x0 # ys\<close> ys by (simp add: count_run_def)
    qed
  qed
qed

lemma bisect_place:
  assumes ntrans: "\<And>a b c. a \<in> A \<Longrightarrow> b \<in> A \<Longrightarrow> c \<in> A
                     \<Longrightarrow> \<not> lt b a \<Longrightarrow> \<not> lt c b \<Longrightarrow> \<not> lt c a"
    and sorted: "sorted_wrt (\<lambda>a b. \<not> lt b a) xs"
    and sub: "insert pivot (set xs) \<subseteq> A"
  shows "l \<le> r \<Longrightarrow> r \<le> length xs
         \<Longrightarrow> \<forall>j < l. \<not> lt pivot (xs ! j)
         \<Longrightarrow> \<forall>j. r \<le> j \<and> j < length xs \<longrightarrow> lt pivot (xs ! j)
         \<Longrightarrow> bisect lt pivot xs l r \<le> length xs
             \<and> (\<forall>j < bisect lt pivot xs l r. \<not> lt pivot (xs ! j))
             \<and> (\<forall>j. bisect lt pivot xs l r \<le> j \<and> j < length xs \<longrightarrow> lt pivot (xs ! j))"
proof (induction "r - l" arbitrary: l r rule: less_induct)
  case less
  let ?p = "l + (r - l) div 2"
  show ?case
  proof (cases "l < r")
    case False
    with less.prems have "l = r" by simp
    with less.prems show ?thesis by (simp add: bisect.simps)
  next
    case True
    then have p: "l \<le> ?p" "?p < r" by auto
    with less.prems have pl: "?p < length xs" by simp
    have inA: "xs ! j \<in> A" if "j < length xs" for j
      using sub that by auto
    have pA: "pivot \<in> A" using sub by simp
    show ?thesis
    proof (cases "lt pivot (xs ! ?p)")
      case True
      have hi: "\<forall>j. ?p \<le> j \<and> j < length xs \<longrightarrow> lt pivot (xs ! j)"
      proof (intro allI impI)
        fix j assume j: "?p \<le> j \<and> j < length xs"
        show "lt pivot (xs ! j)"
        proof (cases "j = ?p")
          case True
          with \<open>lt pivot (xs ! ?p)\<close> show ?thesis by simp
        next
          case False
          with j have "?p < j" by simp
          then have "\<not> lt (xs ! j) (xs ! ?p)"
            using sorted j sorted_wrt_nth_less [of "\<lambda>a b. \<not> lt b a" xs ?p j] by simp
          then show ?thesis
            using ntrans [of "xs ! ?p" "xs ! j" pivot] inA [of j] inA [of ?p] pA pl j
              \<open>lt pivot (xs ! ?p)\<close> by blast
        qed
      qed
      have "?p - l < r - l" using p by simp
      from less.hyps [OF this p(1) _ less.prems(3) hi] pl
      have "bisect lt pivot xs l ?p \<le> length xs
             \<and> (\<forall>j < bisect lt pivot xs l ?p. \<not> lt pivot (xs ! j))
             \<and> (\<forall>j. bisect lt pivot xs l ?p \<le> j \<and> j < length xs \<longrightarrow> lt pivot (xs ! j))"
        by simp
      moreover have "bisect lt pivot xs l r = bisect lt pivot xs l ?p"
        using \<open>l < r\<close> True by (subst bisect.simps) simp
      ultimately show ?thesis by simp
    next
      case False
      have lo: "\<forall>j < ?p + 1. \<not> lt pivot (xs ! j)"
      proof (intro allI impI)
        fix j assume j: "j < ?p + 1"
        show "\<not> lt pivot (xs ! j)"
        proof (cases "j = ?p")
          case True
          with False show ?thesis by simp
        next
          case neq: False
          with j have "j < ?p" by simp
          then have "\<not> lt (xs ! ?p) (xs ! j)"
            using sorted pl sorted_wrt_nth_less [of "\<lambda>a b. \<not> lt b a" xs j ?p] by simp
          then show ?thesis
            using ntrans [of "xs ! j" "xs ! ?p" pivot] inA [of j] inA [of ?p] pA pl
              \<open>j < ?p\<close> False by simp
        qed
      qed
      have "r - (?p + 1) < r - l" using p by simp
      moreover have "?p + 1 \<le> r" using p by simp
      ultimately
      have "bisect lt pivot xs (?p + 1) r \<le> length xs
             \<and> (\<forall>j < bisect lt pivot xs (?p + 1) r. \<not> lt pivot (xs ! j))
             \<and> (\<forall>j. bisect lt pivot xs (?p + 1) r \<le> j \<and> j < length xs
                    \<longrightarrow> lt pivot (xs ! j))"
        using less.hyps [of r "?p + 1"] less.prems(2,4) lo by blast
      moreover have "bisect lt pivot xs l r = bisect lt pivot xs (?p + 1) r"
        using \<open>l < r\<close> False by (subst bisect.simps) simp
      ultimately show ?thesis by simp
    qed
  qed
qed

lemma insert_at_sorted:
  assumes asym: "\<And>a b. a \<in> A \<Longrightarrow> b \<in> A \<Longrightarrow> lt a b \<Longrightarrow> \<not> lt b a"
    and sorted: "sorted_wrt (\<lambda>a b. \<not> lt b a) xs"
    and sub: "insert pivot (set xs) \<subseteq> A"
    and i: "i \<le> length xs"
    and lo: "\<forall>j < i. \<not> lt pivot (xs ! j)"
    and hi: "\<forall>j. i \<le> j \<and> j < length xs \<longrightarrow> lt pivot (xs ! j)"
  shows "sorted_wrt (\<lambda>a b. \<not> lt b a) (insert_at i pivot xs)"
proof -
  have "sorted_wrt (\<lambda>a b. \<not> lt b a) (take i xs @ drop i xs)"
    using sorted by simp
  then have s: "sorted_wrt (\<lambda>a b. \<not> lt b a) (take i xs)"
      "sorted_wrt (\<lambda>a b. \<not> lt b a) (drop i xs)"
      "\<forall>x \<in> set (take i xs). \<forall>y \<in> set (drop i xs). \<not> lt y x"
    unfolding sorted_wrt_append by blast+
  have a: "\<not> lt pivot x" if "x \<in> set (take i xs)" for x
  proof -
    from that obtain j where "j < length (take i xs)" "take i xs ! j = x"
      by (auto simp add: in_set_conv_nth)
    with lo i show ?thesis by auto
  qed
  have b: "\<not> lt y pivot" if "y \<in> set (drop i xs)" for y
  proof -
    from that obtain j where j: "j < length (drop i xs)" "drop i xs ! j = y"
      by (auto simp add: in_set_conv_nth)
    with hi i have "lt pivot y" by auto
    moreover have "y \<in> A" using that sub in_set_dropD by fastforce
    ultimately show ?thesis using asym [of pivot y] sub by auto
  qed
  from s a b show ?thesis
    by (auto simp add: insert_at_def sorted_wrt_append)
qed

lemma binarysort_sorted:
  assumes asym: "\<And>a b. a \<in> A \<Longrightarrow> b \<in> A \<Longrightarrow> lt a b \<Longrightarrow> \<not> lt b a"
    and ntrans: "\<And>a b c. a \<in> A \<Longrightarrow> b \<in> A \<Longrightarrow> c \<in> A
                     \<Longrightarrow> \<not> lt b a \<Longrightarrow> \<not> lt c b \<Longrightarrow> \<not> lt c a"
  shows "sorted_wrt (\<lambda>a b. \<not> lt b a) front \<Longrightarrow> set front \<union> set others \<subseteq> A
         \<Longrightarrow> sorted_wrt (\<lambda>a b. \<not> lt b a) (binarysort lt front others)"
proof (induction others arbitrary: front)
  case Nil
  then show ?case by simp
next
  case (Cons pivot others)
  let ?i = "bisect lt pivot front 0 (length front)"
  have sub: "insert pivot (set front) \<subseteq> A" using Cons.prems by auto
  have place: "?i \<le> length front
         \<and> (\<forall>j < ?i. \<not> lt pivot (front ! j))
         \<and> (\<forall>j. ?i \<le> j \<and> j < length front \<longrightarrow> lt pivot (front ! j))"
  proof (rule bisect_place [where A = A and lt = lt])
    show "\<And>a b c. a \<in> A \<Longrightarrow> b \<in> A \<Longrightarrow> c \<in> A
            \<Longrightarrow> \<not> lt b a \<Longrightarrow> \<not> lt c b \<Longrightarrow> \<not> lt c a"
      by (fact ntrans)
  qed (use Cons.prems(1) sub in auto)
  have "sorted_wrt (\<lambda>a b. \<not> lt b a) (insert_at ?i pivot front)"
  proof (rule insert_at_sorted [where A = A and lt = lt])
    show "\<And>a b. a \<in> A \<Longrightarrow> b \<in> A \<Longrightarrow> lt a b \<Longrightarrow> \<not> lt b a"
      by (fact asym)
  qed (use Cons.prems(1) sub place in auto)
  moreover have "set (insert_at ?i pivot front) = insert pivot (set front)"
    using insert_at_mset [of ?i pivot front] by (metis set_mset_mset set_mset_add_mset_insert)
  ultimately show ?case
    using Cons.IH [of "insert_at ?i pivot front"] Cons.prems(2) by simp
qed

lemma list_sort_sorted:
  assumes asym: "\<And>a b. a \<in> A \<Longrightarrow> b \<in> A \<Longrightarrow> lt a b \<Longrightarrow> \<not> lt b a"
    and ntrans: "\<And>a b c. a \<in> A \<Longrightarrow> b \<in> A \<Longrightarrow> c \<in> A
                     \<Longrightarrow> \<not> lt b a \<Longrightarrow> \<not> lt c b \<Longrightarrow> \<not> lt c a"
    and sub: "set xs \<subseteq> A"
  shows "sorted_wrt (\<lambda>a b. \<not> lt b a) (list_sort lt xs)"
proof (cases "length xs < 2")
  case True
  then have "xs = [] \<or> (\<exists>x. xs = [x])"
    by (cases xs) (auto simp add: length_Suc_conv)
  then show ?thesis by (auto simp add: list_sort_def)
next
  case False
  obtain run others where c: "count_run lt xs = (run, others)"
    by (cases "count_run lt xs")
  have "sorted_wrt (\<lambda>a b. \<not> lt b a) (fst (count_run lt xs))"
    by (rule count_run_sorted [where A = A and lt = lt]) (fact asym ntrans sub)+
  then have r: "sorted_wrt (\<lambda>a b. \<not> lt b a) run"
    using c by simp
  have o: "set run \<union> set others \<subseteq> A"
    using count_run_mset [OF c] sub by (metis set_mset_mset set_mset_union)
  have "sorted_wrt (\<lambda>a b. \<not> lt b a) (binarysort lt run others)"
    by (rule binarysort_sorted [where A = A and lt = lt]) (fact asym ntrans r o)+
  then show ?thesis
    using False c by (simp add: list_sort_def)
qed

lemma float_lt_asym: "float_lt x y \<Longrightarrow> \<not> float_lt y x"
  by (cases x; cases y) auto

lemma float_lt_ntrans:
  "x \<noteq> NaN \<Longrightarrow> y \<noteq> NaN \<Longrightarrow> z \<noteq> NaN
   \<Longrightarrow> \<not> float_lt y x \<Longrightarrow> \<not> float_lt z y \<Longrightarrow> \<not> float_lt z x"
  by (cases x; cases y; cases z) auto

lemma sort_by_score_desc_mset: "mset (sort_by_score_desc xs) = mset xs"
  by (simp add: sort_by_score_desc_def list_sort_mset)

lemma sort_by_score_desc_set: "set (sort_by_score_desc xs) = set xs"
  using sort_by_score_desc_mset [of xs] by (rule mset_eq_setD)

lemma sort_by_score_desc_distinct:
  "distinct (map src_url (sort_by_score_desc xs)) = distinct (map src_url xs)"
proof -
  have "mset (map src_url (sort_by_score_desc xs)) = mset (map src_url xs)"
    by (simp add: sort_by_score_desc_mset)
  then show ?thesis by (rule mset_eq_imp_distinct_iff)
qed

lemma sort_by_score_desc_sorted:
  assumes "list_all (\<lambda>s. src_score s \<noteq> NaN) xs"
  shows "sorted_wrt (\<lambda>a b. float_le (src_score b) (src_score a)) (sort_by_score_desc xs)"
proof -
  let ?lt = "\<lambda>a b. float_lt (src_score a) (src_score b)"
  let ?A = "{s. src_score s \<noteq> NaN}"
  have sub: "set (rev xs) \<subseteq> ?A"
    using assms by (auto simp add: list_all_iff)
  have "sorted_wrt (\<lambda>a b. \<not> ?lt b a) (list_sort ?lt (rev xs))"
  proof (rule list_sort_sorted [where A = ?A and lt = ?lt])
    show "\<And>a b. a \<in> ?A \<Longrightarrow> b \<in> ?A \<Longrightarrow> ?lt a b \<Longrightarrow> \<not> ?lt b a"
      by (rule float_lt_asym)
    show "\<And>a b c. a \<in> ?A \<Longrightarrow> b \<in> ?A \<Longrightarrow> c \<in> ?A
            \<Longrightarrow> \<not> ?lt b a \<Longrightarrow> \<not> ?lt c b \<Longrightarrow> \<not> ?lt c a"
      using float_lt_ntrans by blast
    show "set (rev xs) \<subseteq> ?A" by (rule sub)
  qed
  then have s: "sorted_wrt (\<lambda>a b. \<not> ?lt a b) (sort_by_score_desc xs)"
    by (simp add: sort_by_score_desc_def sorted_wrt_rev)
  have m: "set (sort_by_score_desc xs) \<subseteq> ?A"
    using sub by (simp add: sort_by_score_desc_set)
  show ?thesis
    by (rule sorted_wrt_mono_rel [OF _ s]) (use m in \<open>auto simp add: float_le_def\<close>)
qed

text \<open>
  C7, as amended. The sources of a query result hold at most one citation per URL; when
  the engine answers and the citations are built, the URLs are those of the citations
  and each URL keeps its first citation. The sources are sorted by descending score when
  none of their scores is NaN.
\<close>

theorem query_sources_unique_sorted:
  "\<exists>srcs. map_of (query w st question) ''sources'' = Some (PSources srcs)
      \<and> distinct (map src_url srcs)
      \<and> (list_all (\<lambda>s. src_score s \<noteq> NaN) srcs
           \<longrightarrow> sorted_wrt (\<lambda>a b. float_le (src_score b) (src_score a)) srcs)
      \<and> (\<forall>resp cited.
            query_engine st \<noteq> None
            \<and> engine_query w (stored_nodes st) question = Inr resp
            \<and> extract_sources (case source_nodes resp of None \<Rightarrow> [] | Some ns \<Rightarrow> ns) = Inr cited
            \<longrightarrow> src_url ` set srcs = src_url ` set cited
                \<and> (\<forall>s \<in> set srcs. find (\<lambda>t. src_url t = src_url s) cited = Some s))"
proof (cases "\<exists>resp cited. query_engine st \<noteq> None
            \<and> engine_query w (stored_nodes st) question = Inr resp
            \<and> extract_sources (case source_nodes resp of None \<Rightarrow> [] | Some ns \<Rightarrow> ns) = Inr cited")
  case True
  then obtain resp cited where e: "query_engine st \<noteq> None"
    and r: "engine_query w (stored_nodes st) question = Inr resp"
    and c: "extract_sources (case source_nodes resp of None \<Rightarrow> [] | Some ns \<Rightarrow> ns) = Inr cited"
    by blast
  let ?srcs = "sort_by_score_desc (unique_sources [] cited)"
  have "map_of (query w st question) ''sources'' = Some (PSources ?srcs)"
    using e r c by (auto simp add: query_def)
  moreover have "distinct (map src_url ?srcs)"
    by (simp add: sort_by_score_desc_distinct unique_sources_distinct)
  moreover have "list_all (\<lambda>s. src_score s \<noteq> NaN) ?srcs
      \<longrightarrow> sorted_wrt (\<lambda>a b. float_le (src_score b) (src_score a)) ?srcs"
    using sort_by_score_desc_sorted [of "unique_sources [] cited"]
    by (simp add: list_all_iff sort_by_score_desc_set)
  moreover have "src_url ` set ?srcs = src_url ` set cited"
    by (simp add: sort_by_score_desc_set unique_sources_urls)
  moreover have "\<forall>s \<in> set ?srcs. find (\<lambda>t. src_url t = src_url s) cited = Some s"
    using unique_sources_first by (auto simp add: sort_by_score_desc_set)
  ultimately show ?thesis using r c by auto
next
  case False
  then have "map_of (query w st question) ''sources'' = Some (PSources [])"
    by (auto simp add: query_def failure_def split: option.splits sum.splits)
  with False show ?thesis by auto
qed

lemma sources_nan:
  "sort_by_score_desc
     [\<lparr>src_url = ''http://x/a'', src_score = Finite (1/2), src_text_snippet = ''first''\<rparr>,
      \<lparr>src_url = ''http://x/b'', src_score = NaN, src_text_snippet = ''second''\<rparr>,
      \<lparr>src_url = ''http://x/c'', src_score = Finite (3/4), src_text_snippet = ''third''\<rparr>] =
     [\<lparr>src_url = ''http://x/a'', src_score = Finite (1/2), src_text_snippet = ''first''\<rparr>,
      \<lparr>src_url = ''http://x/b'', src_score = NaN, src_text_snippet = ''second''\<rparr>,
      \<lparr>src_url = ''http://x/c'', src_score = Finite (3/4), src_text_snippet = ''third''\<rparr>]"
  by (simp add: sort_by_score_desc_def list_sort_def count_run_def)

text \<open>
  C7 as the specification states it fails on a score that is NaN, which compares false
  with every score: with the scores 0.5, NaN and 0.75 on three pages, \<open>list.sort\<close> finds
  the list in order and leaves it as it is, the citation of score 0.5 before the one of
  score 0.75.
\<close>

theorem query_sources_nan_unsorted:
  "map_of (query world_nan (setup_vector_store fresh) ''q'') ''sources'' =
     Some (PSources
       [\<lparr>src_url = ''http://x/a'', src_score = Finite (1/2), src_text_snippet = ''first''\<rparr>,
        \<lparr>src_url = ''http://x/b'', src_score = NaN, src_text_snippet = ''second''\<rparr>,
        \<lparr>src_url = ''http://x/c'', src_score = Finite (3/4), src_text_snippet = ''third''\<rparr>])
   \<and> float_lt (Finite (1/2)) (Finite (3/4))
   \<and> \<not> sorted_wrt (\<lambda>a b. \<not> float_lt (src_score a) (src_score b))
         [\<lparr>src_url = ''http://x/a'', src_score = Finite (1/2), src_text_snippet = ''first''\<rparr>,
          \<lparr>src_url = ''http://x/b'', src_score = NaN, src_text_snippet = ''second''\<rparr>,
          \<lparr>src_url = ''http://x/c'', src_score = Finite (3/4), src_text_snippet = ''third''\<rparr>]"
proof -
  have "map_of (query world_nan (setup_vector_store fresh) ''q'') ''sources'' =
     Some (PSources
       [\<lparr>src_url = ''http://x/a'', src_score = Finite (1/2), src_text_snippet = ''first''\<rparr>,
        \<lparr>src_url = ''http://x/b'', src_score = NaN, src_text_snippet = ''second''\<rparr>,
        \<lparr>src_url = ''http://x/c'', src_score = Finite (3/4), src_text_snippet = ''third''\<rparr>])"
    by (simp add: query_def setup_vector_store_def setup_query_engine_def world_nan_def
          answer_nan_def chunk_def text_snippet_def sources_nan)
  then show ?thesis by simp
qed

lemma sources_two:
  "sort_by_score_desc
     [\<lparr>src_url = ''http://x/a'', src_score = Finite (1/2), src_text_snippet = ''first''\<rparr>,
      \<lparr>src_url = ''http://x/b'', src_score = Finite (3/4), src_text_snippet = ''second''\<rparr>,
      \<lparr>src_url = ''http://x/c'', src_score = Finite (5/8), src_text_snippet = ''fourth''\<rparr>] =
     [\<lparr>src_url = ''http://x/b'', src_score = Finite (3/4), src_text_snippet = ''second''\<rparr>,
      \<lparr>src_url = ''http://x/c'', src_score = Finite (5/8), src_text_snippet = ''fourth''\<rparr>,
      \<lparr>src_url = ''http://x/a'', src_score = Finite (1/2), src_text_snippet = ''first''\<rparr>]"
  by (simp add: sort_by_score_desc_def list_sort_def count_run_def bisect.simps insert_at_def)

theorem query_sources_unique_sorted_witness:
  "query_engine (setup_vector_store fresh) = Some ()
   \<and> engine_query world_two (stored_nodes (setup_vector_store fresh)) ''q'' =
       Inr \<lparr>response_str = ''answer'',
            source_nodes = Some [chunk ''http://x/a'' (Some (Finite (1/2))) ''first'',
                                 chunk ''http://x/b'' (Some (Finite (3/4))) ''second'',
                                 chunk ''http://x/a'' (Some (Finite 1)) ''third'',
                                 chunk ''http://x/c'' (Some (Finite (5/8))) ''fourth'']\<rparr>
   \<and> extract_sources [chunk ''http://x/a'' (Some (Finite (1/2))) ''first'',
                        chunk ''http://x/b'' (Some (Finite (3/4))) ''second'',
                        chunk ''http://x/a'' (Some (Finite 1)) ''third'',
                        chunk ''http://x/c'' (Some (Finite (5/8))) ''fourth''] =
       Inr [\<lparr>src_url = ''http://x/a'', src_score = Finite (1/2), src_text_snippet = ''first''\<rparr>,
            \<lparr>src_url = ''http://x/b'', src_score = Finite (3/4), src_text_snippet = ''second''\<rparr>,
            \<lparr>src_url = ''http://x/a'', src_score = Finite 1, src_text_snippet = ''third''\<rparr>,
            \<lparr>src_url = ''http://x/c'', src_score = Finite (5/8), src_text_snippet = ''fourth''\<rparr>]
   \<and> map_of (query world_two (setup_vector_store fresh) ''q'') ''sources'' =
       Some (PSources
         [\<lparr>src_url = ''http://x/b'', src_score = Finite (3/4), src_text_snippet = ''second''\<rparr>,
          \<lparr>src_url = ''http://x/c'', src_score = Finite (5/8), src_text_snippet = ''fourth''\<rparr>,
          \<lparr>src_url = ''http://x/a'', src_score = Finite (1/2), src_text_snippet = ''first''\<rparr>])
   \<and> list_all (\<lambda>s. src_score s \<noteq> NaN)
         [\<lparr>src_url = ''http://x/b'', src_score = Finite (3/4), src_text_snippet = ''second''\<rparr>,
          \<lparr>src_url = ''http://x/c'', src_score = Finite (5/8), src_text_snippet = ''fourth''\<rparr>,
          \<lparr>src_url = ''http://x/a'', src_score = Finite (1/2), src_text_snippet = ''first''\<rparr>]
   \<and> sorted_wrt (\<lambda>a b. float_le (src_score b) (src_score a))
         [\<lparr>src_url = ''http://x/b'', src_score = Finite (3/4), src_text_snippet = ''second''\<rparr>,
          \<lparr>src_url = ''http://x/c'', src_score = Finite (5/8), src_text_snippet = ''fourth''\<rparr>,
          \<lparr>src_url = ''http://x/a'', src_score = Finite (1/2), src_text_snippet = ''first''\<rparr>]
   \<and> find (\<lambda>t. src_url t = ''http://x/a'')
         [\<lparr>src_url = ''http://x/a'', src_score = Finite (1/2), src_text_snippet = ''first''\<rparr>,
          \<lparr>src_url = ''http://x/b'', src_score = Finite (3/4), src_text_snippet = ''second''\<rparr>,
          \<lparr>src_url = ''http://x/a'', src_score = Finite 1, src_text_snippet = ''third''\<rparr>,
          \<lparr>src_url = ''http://x/c'', src_score = Finite (5/8), src_text_snippet = ''fourth''\<rparr>]
       = Some \<lparr>src_url = ''http://x/a'', src_score = Finite (1/2), src_text_snippet = ''first''\<rparr>"
proof -
  let ?st = "setup_vector_store fresh"
  let ?cited =
    "[\<lparr>src_url = ''http://x/a'', src_score = Finite (1/2), src_text_snippet = ''first''\<rparr>,
      \<lparr>src_url = ''http://x/b'', src_score = Finite (3/4), src_text_snippet = ''second''\<rparr>,
      \<lparr>src_url = ''http://x/a'', src_score = Finite 1, src_text_snippet = ''third''\<rparr>,
      \<lparr>src_url = ''http://x/c'', src_score = Finite (5/8), src_text_snippet = ''fourth''\<rparr>]"
  let ?sorted =
    "[\<lparr>src_url = ''http://x/b'', src_score = Finite (3/4), src_text_snippet = ''second''\<rparr>,
      \<lparr>src_url = ''http://x/c'', src_score = Finite (5/8), src_text_snippet = ''fourth''\<rparr>,
      \<lparr>src_url = ''http://x/a'', src_score = Finite (1/2), src_text_snippet = ''first''\<rparr>]"
  have e: "query_engine ?st = Some ()"
    by (simp add: setup_vector_store_def setup_query_engine_def)
  have r: "engine_query world_two (stored_nodes ?st) ''q'' =
       Inr \<lparr>response_str = ''answer'',
            source_nodes = Some [chunk ''http://x/a'' (Some (Finite (1/2))) ''first'',
                                 chunk ''http://x/b'' (Some (Finite (3/4))) ''second'',
                                 chunk ''http://x/a'' (Some (Finite 1)) ''third'',
                                 chunk ''http://x/c'' (Some (Finite (5/8))) ''fourth'']\<rparr>"
    by (simp add: world_two_def answer_two_def)
  have c: "extract_sources [chunk ''http://x/a'' (Some (Finite (1/2))) ''first'',
                            chunk ''http://x/b'' (Some (Finite (3/4))) ''second'',
                            chunk ''http://x/a'' (Some (Finite 1)) ''third'',
                            chunk ''http://x/c'' (Some (Finite (5/8))) ''fourth''] = Inr ?cited"
    by (simp add: chunk_def text_snippet_def)
  have v: "map_of (query world_two ?st ''q'') ''sources'' = Some (PSources ?sorted)"
    using e r c by (simp add: query_def sources_two)
  have n: "list_all (\<lambda>s. src_score s \<noteq> NaN) ?sorted"
    by simp
  from query_sources_unique_sorted [of world_two ?st "''q''"]
  obtain srcs where q: "map_of (query world_two ?st ''q'') ''sources'' = Some (PSources srcs)"
    and o: "list_all (\<lambda>s. src_score s \<noteq> NaN) srcs
           \<longrightarrow> sorted_wrt (\<lambda>a b. float_le (src_score b) (src_score a)) srcs"
    and f: "\<forall>s \<in> set srcs. find (\<lambda>t. src_url t = src_url s) ?cited = Some s"
    using e r c by auto
  from q v have srcs: "srcs = ?sorted" by simp
  from o n have s: "sorted_wrt (\<lambda>a b. float_le (src_score b) (src_score a)) ?sorted"
    unfolding srcs by blast
  from f have "find (\<lambda>t. src_url t = ''http://x/a'') ?cited
          = Some \<lparr>src_url = ''http://x/a'', src_score = Finite (1/2), src_text_snippet = ''first''\<rparr>"
    unfolding srcs by simp
  with e r c v n s show ?thesis by blast
qed


section \<open>The navigation pattern, matched\<close>

lemma strip_prefix_append: "strip_prefix p (p @ s) = Some s"
  by (induction p) simp_all

lemma strip_prefix_Some: "strip_prefix p s = Some r \<Longrightarrow> s = p @ r"
  by (induction p s rule: strip_prefix.induct) (auto split: if_splits)

lemma dropWhile_through:
  "list_all P xs \<Longrightarrow> \<not> P y \<Longrightarrow> dropWhile P (xs @ y # ys) = y # ys"
  by (induction xs) simp_all

lemma takeWhile_through:
  "list_all P xs \<Longrightarrow> \<not> P y \<Longrightarrow> takeWhile P (xs @ y # ys) = xs"
  by (induction xs) simp_all

lemma match_target_quoted:
  assumes "t \<noteq> []" and "list_all (\<lambda>c. \<not> is_quote c) t" and "is_quote q"
  shows "match_target (t @ q # rest) = Some (t, rest)"
  using assms
  by (simp add: match_target_def dropWhile_through [of "\<lambda>c. \<not> is_quote c"]
        takeWhile_through [of "\<lambda>c. \<not> is_quote c"])

lemma match_assign_quoted:
  assumes "list_all is_space ws1" and "list_all is_space ws2" and "is_quote q1"
    and "match_target s = Some r"
  shows "match_assign (ws1 @ CHR ''='' # ws2 @ q1 # s) = Some r"
proof -
  have eq: "\<not> is_space CHR ''=''" by (simp add: is_space_def)
  have q: "\<not> is_space q1" using assms(3) by (auto simp add: is_space_def is_quote_def)
  show ?thesis
    using assms
    by (simp add: match_assign_def dropWhile_through [OF assms(1) eq]
          dropWhile_through [OF assms(2) q])
qed

lemma findall_nav_literal:
  "g \<in> set (findall_nav s) \<Longrightarrow> \<exists>before after. s = before @ ''window.location.href'' @ after"
proof (induction s rule: findall_nav.induct)
  case 1
  then show ?case by (simp add: findall_nav.simps)
next
  case (2 c cs)
  show ?case
  proof (cases "match_nav (c # cs)")
    case None
    with 2 obtain before after where "cs = before @ ''window.location.href'' @ after"
      by (auto simp add: findall_nav.simps)
    then have "c # cs = (c # before) @ ''window.location.href'' @ after" by simp
    then show ?thesis by blast
  next
    case (Some m)
    then obtain r where "strip_prefix ''window.location.href'' (c # cs) = Some r"
      by (auto simp add: match_nav_def split: option.splits)
    then have "c # cs = [] @ ''window.location.href'' @ r"
      using strip_prefix_Some by fastforce
    then show ?thesis by blast
  qed
qed

text \<open>
  C8, as the code has it. The pattern is matched with the literal
  \<open>window.location.href\<close> in exactly this case: after the literal, optional white space,
  \<open>=\<close>, optional white space, a single or a double quote, a non-empty target without
  quotes and a single or a double quote give one match, the target; the two quotes need
  not be the same. Every match comes from an occurrence of the literal, letter for letter.
\<close>

theorem findall_nav_case_sensitive:
  "(list_all is_space ws1 \<and> list_all is_space ws2 \<and> is_quote q1 \<and> is_quote q2
      \<and> t \<noteq> [] \<and> list_all (\<lambda>c. \<not> is_quote c) t
      \<longrightarrow> findall_nav (''window.location.href'' @ ws1 @ ''='' @ ws2 @ [q1] @ t @ [q2] @ rest)
            = t # findall_nav rest)
   \<and> (findall_nav s \<noteq> [] \<longrightarrow> (\<exists>before after. s = before @ ''window.location.href'' @ after))"
proof -
  have a: "findall_nav (''window.location.href'' @ ws1 @ ''='' @ ws2 @ [q1] @ t @ [q2] @ rest)
            = t # findall_nav rest"
    if h: "list_all is_space ws1" "list_all is_space ws2" "is_quote q1" "is_quote q2"
      "t \<noteq> []" "list_all (\<lambda>c. \<not> is_quote c) t"
  proof -
    have "match_assign (ws1 @ CHR ''='' # ws2 @ q1 # t @ q2 # rest) = Some (t, rest)"
      using match_assign_quoted [OF h(1) h(2) h(3) match_target_quoted [OF h(5) h(6) h(4)]] .
    then have "match_nav (''window.location.href'' @ ws1 @ ''='' @ ws2 @ [q1] @ t @ [q2] @ rest)
                 = Some (t, rest)"
      using strip_prefix_append [of "''window.location.href''"
              "ws1 @ CHR ''='' # ws2 @ q1 # t @ q2 # rest"]
      by (simp add: match_nav_def)
    then show ?thesis
      by (simp add: findall_nav.simps)
  qed
  have b: "\<exists>before after. s = before @ ''window.location.href'' @ after" if "findall_nav s \<noteq> []"
  proof -
    from that obtain g where "g \<in> set (findall_nav s)" by (cases "findall_nav s") auto
    then show ?thesis by (rule findall_nav_literal)
  qed
  from a b show ?thesis by blast
qed

text \<open>
  C8 as it is written fails: the regular expression has no \<open>IGNORECASE\<close> flag, and the
  upper-case spelling of the literal is not matched.
\<close>

theorem findall_nav_upper_case:
  "findall_nav (''WINDOW.LOCATION.HREF='' @ [CHR 0x27] @ ''a.html'' @ [CHR 0x27]) = []
   \<and> findall_nav (''window.location.href='' @ [CHR 0x27] @ ''a.html'' @ [CHR 0x27]) = [''a.html'']"
  by (simp add: nav_defs)

theorem findall_nav_case_sensitive_witness:
  "list_all is_space '' '' \<and> is_quote CHR 0x27 \<and> is_quote CHR 0x22
   \<and> list_all (\<lambda>c. \<not> is_quote c) ''a.html''
   \<and> findall_nav (''window.location.href ='' @ [CHR 0x27] @ ''a.html'' @ [CHR 0x22]) = [''a.html'']"
proof -
  have h: "list_all is_space '' ''" "list_all is_space []" "is_quote CHR 0x27" "is_quote CHR 0x22"
    "''a.html'' \<noteq> []" "list_all (\<lambda>c. \<not> is_quote c) ''a.html''"
    by (simp_all add: is_space_def is_quote_def)
  from findall_nav_case_sensitive [of "'' ''" "[]" "CHR 0x27" "CHR 0x22" "''a.html''" "[]"] h
  have "findall_nav (''window.location.href ='' @ [CHR 0x27] @ ''a.html'' @ [CHR 0x22])
          = ''a.html'' # findall_nav []"
    by simp
  with h show ?thesis by (simp add: findall_nav.simps)
qed

section \<open>Query strings and fragments\<close>















end
